theory Spec2Isabelle
  imports
    Main
    "HOL-Library.Char_ord"
    "HOL-Library.List_Lexorder"
    "HOL-Library.Product_Lexorder"
    "HOL-Library.Multiset"
    "HOL-Library.Word"
begin

section \<open>Package util: unit options and the sorted diff\<close>

text \<open>
  \<^verbatim>\<open>unit.UnitOption\<close> of go-systemd is a struct of three strings. The code handles
  options through pointers but only ever reads the three fields, so an option is modelled
  by its value.
\<close>

record UnitOption =
  Section :: string
  Name :: string
  Value :: string

text \<open>Three options of an nspawn unit, for the examples below.\<close>

abbreviation opt_boot :: UnitOption where
  "opt_boot \<equiv> \<lparr>Section = ''Exec'', Name = ''Boot'', Value = ''yes''\<rparr>"

abbreviation opt_bind :: UnitOption where
  "opt_bind \<equiv> \<lparr>Section = ''Files'', Name = ''Bind'', Value = ''/srv''\<rparr>"

abbreviation opt_zone :: UnitOption where
  "opt_zone \<equiv> \<lparr>Section = ''Network'', Name = ''Zone'', Value = ''lan''\<rparr>"

text \<open>
  \<^verbatim>\<open>cmp.Compare\<close> on Go strings: bytewise lexicographic comparison, the order that
  the library theories \<open>Char_ord\<close> and \<open>List_Lexorder\<close> give to
  \<^typ>\<open>string\<close>.
\<close>

definition cmp_Compare :: "'a::linorder \<Rightarrow> 'a \<Rightarrow> int" where
  "cmp_Compare x y = (if x < y then - 1 else if y < x then 1 else 0)"

definition CompareOptions :: "UnitOption \<Rightarrow> UnitOption \<Rightarrow> int" where
  "CompareOptions a b =
     (let c = cmp_Compare (Section a) (Section b) in
      if c \<noteq> 0 then c
      else
        let c = cmp_Compare (Name a) (Name b) in
        if c \<noteq> 0 then c
        else cmp_Compare (Value a) (Value b))"

text \<open>
  \<^verbatim>\<open>slices.SortFunc\<close>: sorting with a three-way comparison, here by insertion. Go's
  sort is not stable; for a comparison that is zero on equal values only, as
  \<^const>\<open>CompareOptions\<close> is, the sorted list is the same for every sorting algorithm.
\<close>

fun insert_by :: "('a \<Rightarrow> 'a \<Rightarrow> int) \<Rightarrow> 'a \<Rightarrow> 'a list \<Rightarrow> 'a list" where
  "insert_by cmp x [] = [x]"
| "insert_by cmp x (y # ys) =
     (if cmp x y \<le> 0 then x # y # ys else y # insert_by cmp x ys)"

definition SortFunc :: "'a list \<Rightarrow> ('a \<Rightarrow> 'a \<Rightarrow> int) \<Rightarrow> 'a list" where
  "SortFunc xs cmp = foldr (insert_by cmp) xs []"

text \<open>
  \<^verbatim>\<open>SliceDiffFunc\<close>. The two indices \<^verbatim>\<open>i\<close> and \<^verbatim>\<open>j\<close> of the source are
  the suffixes \<^verbatim>\<open>a[i:]\<close> and \<^verbatim>\<open>b[j:]\<close> still to be read; the three results are
  accumulated by appending, as the source does. The second equation is the state after
  the main loop (one of the suffixes is empty): the two trailing loops append what is
  left of \<^verbatim>\<open>a\<close> to \<^verbatim>\<open>add\<close> and what is left of \<^verbatim>\<open>b\<close> to \<^verbatim>\<open>remove\<close>.
\<close>

fun SliceDiffFunc_loop ::
  "('a \<Rightarrow> 'b \<Rightarrow> int) \<Rightarrow> 'a list \<Rightarrow> 'b list \<Rightarrow> 'a list \<Rightarrow> 'b list \<Rightarrow> 'b list
    \<Rightarrow> 'a list \<times> 'b list \<times> 'b list" where
  "SliceDiffFunc_loop cmp (x # xs) (y # ys) add keep remove =
     (let c = cmp x y in
      if c < 0 then SliceDiffFunc_loop cmp xs (y # ys) (add @ [x]) keep remove
      else if c > 0 then SliceDiffFunc_loop cmp (x # xs) ys add keep (remove @ [y])
      else SliceDiffFunc_loop cmp xs ys add (keep @ [y]) remove)"
| "SliceDiffFunc_loop cmp xs ys add keep remove = (add @ xs, keep, remove @ ys)"

definition SliceDiffFunc ::
  "'a list \<Rightarrow> 'b list \<Rightarrow> ('a \<Rightarrow> 'b \<Rightarrow> int) \<Rightarrow> 'a list \<times> 'b list \<times> 'b list" where
  "SliceDiffFunc a b cmp = SliceDiffFunc_loop cmp a b [] [] []"

text \<open>The sorted merge of two lists under a three-way comparison.\<close>

fun merge_by :: "('a \<Rightarrow> 'a \<Rightarrow> int) \<Rightarrow> 'a list \<Rightarrow> 'a list \<Rightarrow> 'a list" where
  "merge_by cmp [] ys = ys"
| "merge_by cmp xs [] = xs"
| "merge_by cmp (x # xs) (y # ys) =
     (if cmp x y \<le> 0 then x # merge_by cmp xs (y # ys) else y # merge_by cmp (x # xs) ys)"

text \<open>A list is sorted by a three-way comparison when no element compares above a later one.\<close>

definition sorted_by :: "('a \<Rightarrow> 'a \<Rightarrow> int) \<Rightarrow> 'a list \<Rightarrow> bool" where
  "sorted_by cmp xs = sorted_wrt (\<lambda>x y. cmp x y \<le> 0) xs"

text \<open>The (section, key, value) triple of an option, in the lexicographic order of triples.\<close>

definition triple :: "UnitOption \<Rightarrow> string \<times> string \<times> string" where
  "triple a = (Section a, Name a, Value a)"


subsection \<open>Errors\<close>

text \<open>
  Go's \<^verbatim>\<open>error\<close> values, as far as the two packages tell them apart: the sentinel
  \<^verbatim>\<open>fs.ErrNotExist\<close> that \<^verbatim>\<open>os.IsNotExist\<close> recognises, any other failure of a
  call into the operating system, a parse error of the unit file reader, the two
  sentinels of package machineutil, an error reply of the bus (with its message), a pair
  wrapped by \<^verbatim>\<open>fmt.Errorf("%w: %w", ...)\<close>, and a message built by \<^verbatim>\<open>fmt.Errorf\<close>.
\<close>

datatype os_call = Stat | Open | MkdirAll | Create | Write | Remove

datatype error =
    ErrNotExist
  | ErrSyscall os_call
  | ErrDeserialize string
  | ErrAlreadyExists
  | ErrNoSuchImage
  | ErrDBus string
  | ErrWrap error error
  | Errorf string

subsection \<open>The file system\<close>

text \<open>
  The state the package reads and writes: the regular files (path to content), the
  directories that \<^verbatim>\<open>os.MkdirAll\<close> has been asked for, and the calls the operating
  system refuses (permissions, I/O errors): \<open>fails fs k p\<close> says that call \<open>k\<close> on path
  \<open>p\<close> returns an error and changes nothing.
\<close>

record filesystem =
  files :: "string \<rightharpoonup> string"
  dirs :: "string set"
  fails :: "os_call \<Rightarrow> string \<Rightarrow> bool"

definition os_Stat :: "filesystem \<Rightarrow> string \<Rightarrow> error option" where
  "os_Stat fs p =
     (if fails fs Stat p then Some (ErrSyscall Stat)
      else if files fs p = None then Some ErrNotExist
      else None)"

definition os_Open :: "filesystem \<Rightarrow> string \<Rightarrow> error + string" where
  "os_Open fs p =
     (if fails fs Open p then Inl (ErrSyscall Open)
      else case files fs p of None \<Rightarrow> Inl ErrNotExist | Some content \<Rightarrow> Inr content)"

definition os_Remove :: "filesystem \<Rightarrow> string \<Rightarrow> error option \<times> filesystem" where
  "os_Remove fs p =
     (if fails fs Remove p then (Some (ErrSyscall Remove), fs)
      else if files fs p = None then (Some ErrNotExist, fs)
      else (None, fs\<lparr>files := (files fs)(p := None)\<rparr>))"

definition os_MkdirAll :: "filesystem \<Rightarrow> string \<Rightarrow> error option \<times> filesystem" where
  "os_MkdirAll fs d =
     (if fails fs MkdirAll d then (Some (ErrSyscall MkdirAll), fs)
      else (None, fs\<lparr>dirs := insert d (dirs fs)\<rparr>))"

text \<open>\<^verbatim>\<open>os.Create\<close> creates the file or truncates it.\<close>

definition os_Create :: "filesystem \<Rightarrow> string \<Rightarrow> error option \<times> filesystem" where
  "os_Create fs p =
     (if fails fs Create p then (Some (ErrSyscall Create), fs)
      else (None, fs\<lparr>files := (files fs)(p \<mapsto> [])\<rparr>))"

text \<open>\<^verbatim>\<open>io.Copy\<close> into the file just created: on failure the file stays as created.\<close>

definition io_Copy :: "filesystem \<Rightarrow> string \<Rightarrow> string \<Rightarrow> error option \<times> filesystem" where
  "io_Copy fs p content =
     (if fails fs Write p then (Some (ErrSyscall Write), fs)
      else (None, fs\<lparr>files := (files fs)(p \<mapsto> content)\<rparr>))"

text \<open>
  Three functions the package takes from libraries outside the repository:
  \<^verbatim>\<open>unit.Serialize\<close> and \<^verbatim>\<open>unit.Deserialize\<close> of go-systemd (the text format of
  unit files) and \<^verbatim>\<open>filepath.Dir\<close>. They are parameters of the model.
\<close>

record lib =
  unit_Serialize :: "UnitOption list \<Rightarrow> string"
  unit_Deserialize :: "string \<Rightarrow> error + UnitOption list"
  filepath_Dir :: "string \<Rightarrow> string"

subsection \<open>ReadUnit, WriteUnit, EnsureUnit\<close>

definition os_IsNotExist :: "error \<Rightarrow> bool" where
  "os_IsNotExist e = (e = ErrNotExist)"

definition ReadUnit :: "lib \<Rightarrow> filesystem \<Rightarrow> string \<Rightarrow> bool \<Rightarrow> error + UnitOption list" where
  "ReadUnit l fs file_path sorted_flag =
     (case os_Stat fs file_path of
        Some e \<Rightarrow> if os_IsNotExist e then Inr [] else Inl e
      | None \<Rightarrow>
         (case os_Open fs file_path of
            Inl e \<Rightarrow> Inl e
          | Inr f \<Rightarrow>
             (case unit_Deserialize l f of
                Inl e \<Rightarrow> Inl e
              | Inr opts \<Rightarrow> Inr (if sorted_flag then SortFunc opts CompareOptions else opts))))"

definition WriteUnit ::
  "lib \<Rightarrow> filesystem \<Rightarrow> string \<Rightarrow> UnitOption list \<Rightarrow> error option \<times> filesystem" where
  "WriteUnit l fs file_path opts =
     (case (case os_Stat fs file_path of
              Some e \<Rightarrow> if os_IsNotExist e then Inr False else Inl e
            | None \<Rightarrow> Inr True) of
        Inl e \<Rightarrow> (Some e, fs)
      | Inr exists \<Rightarrow>
          if length opts = 0 then
            (if exists then os_Remove fs file_path else (None, fs))
          else
            (case os_MkdirAll fs (filepath_Dir l file_path) of
               (Some e, fs1) \<Rightarrow> (Some e, fs1)
             | (None, fs1) \<Rightarrow>
                 (case os_Create fs1 file_path of
                    (Some e, fs2) \<Rightarrow> (Some e, fs2)
                  | (None, fs2) \<Rightarrow> io_Copy fs2 file_path (unit_Serialize l opts))))"

text \<open>
  The logger: \<^verbatim>\<open>nil\<close> is \<open>None\<close>; a logger is the list of records it has received,
  each with its level, its message, the \<^verbatim>\<open>unit\<close> attribute and the option logged.
\<close>

datatype log_level = Info | Debug

type_synonym log_record = "log_level \<times> string \<times> string \<times> UnitOption"

definition log_options ::
  "log_record list option \<Rightarrow> string \<Rightarrow> UnitOption list \<Rightarrow> UnitOption list \<Rightarrow> UnitOption list
    \<Rightarrow> log_record list option" where
  "log_options log file_path add keep remove =
     (case log of
        None \<Rightarrow> None
      | Some recs \<Rightarrow>
          Some (recs @ map (\<lambda>opt. (Info, ''Add'', file_path, opt)) add
                     @ map (\<lambda>opt. (Debug, ''Keep'', file_path, opt)) keep
                     @ map (\<lambda>opt. (Info, ''Remove'', file_path, opt)) remove))"

record EnsureUnit_result =
  changed :: bool
  err :: "error option"
  fs_out :: filesystem
  log_out :: "log_record list option"

definition EnsureUnit ::
  "lib \<Rightarrow> log_record list option \<Rightarrow> filesystem \<Rightarrow> string \<Rightarrow> UnitOption list \<Rightarrow> EnsureUnit_result" where
  "EnsureUnit l log fs file_path in_opts =
     (case ReadUnit l fs file_path True of
        Inl e \<Rightarrow> \<lparr>changed = False, err = Some e, fs_out = fs, log_out = log\<rparr>
      | Inr unit_opts \<Rightarrow>
          (let opts = SortFunc in_opts CompareOptions;
               (add, keep, remove) = SliceDiffFunc opts unit_opts CompareOptions;
               log' = log_options log file_path add keep remove
           in if length add = 0 \<and> length remove = 0
              then \<lparr>changed = False, err = None, fs_out = fs, log_out = log'\<rparr>
              else (case WriteUnit l fs file_path opts of
                      (e, fs') \<Rightarrow> \<lparr>changed = True, err = e, fs_out = fs', log_out = log'\<rparr>)))"

text \<open>
  The run of \<^const>\<open>EnsureUnit\<close> on a path meets no refusal of the operating system:
  none of the calls it can make on that path (and on its directory) fails.
\<close>

definition calls_succeed :: "lib \<Rightarrow> filesystem \<Rightarrow> string \<Rightarrow> bool" where
  "calls_succeed l fs p \<longleftrightarrow>
     \<not> fails fs Stat p \<and> \<not> fails fs Open p \<and> \<not> fails fs MkdirAll (filepath_Dir l p) \<and>
     \<not> fails fs Create p \<and> \<not> fails fs Write p \<and> \<not> fails fs Remove p"

text \<open>
  Example data: a disk with no file on which every call succeeds, and a stand-in for the
  library functions that writes and reads back the one-option unit \<open>[Exec] Boot=yes\<close>.
\<close>

abbreviation empty_disk :: filesystem where
  "empty_disk \<equiv> \<lparr>files = Map.empty, dirs = {}, fails = (\<lambda>k p. False)\<rparr>"

abbreviation boot_lib :: lib where
  "boot_lib \<equiv>
     \<lparr>unit_Serialize = (\<lambda>opts. if opts = [] then [] else ''[Exec]\<newline>Boot=yes\<newline>''),
      unit_Deserialize = (\<lambda>content. if content = [] then Inr [] else Inr [opt_boot]),
      filepath_Dir = (\<lambda>p. ''/etc/systemd/nspawn'')\<rparr>"

text \<open>
  A unit file format to run the reconciler on: the writer puts every option down under a
  section header of its own, the value as it is; the reader, as the reader of go-systemd
  does, drops the blanks around a name and around a value. An option whose value begins
  with a blank therefore does not come back as it was written.
\<close>

abbreviation opt_blank :: UnitOption where
  "opt_blank \<equiv> \<lparr>Section = ''Exec'', Name = ''Boot'', Value = '' yes''\<rparr>"

definition write_option :: "UnitOption \<Rightarrow> string" where
  "write_option opt =
     ''['' @ Section opt @ '']'' @ [CHR 0x0A] @ Name opt @ ''='' @ Value opt @ [CHR 0x0A]"

definition split_lines :: "string \<Rightarrow> string list" where
  "split_lines s =
     foldr (\<lambda>ch acc.
        if ch = CHR 0x0A then [] # acc
        else (case acc of [] \<Rightarrow> [[ch]] | l # ls \<Rightarrow> (ch # l) # ls)) s []"

definition is_blank :: "char \<Rightarrow> bool" where
  "is_blank ch = (ch = CHR '' '' \<or> ch = CHR 0x09)"

definition trim :: "string \<Rightarrow> string" where
  "trim s = rev (dropWhile is_blank (rev (dropWhile is_blank s)))"

fun cut_equals :: "string \<Rightarrow> (string \<times> string) option" where
  "cut_equals [] = None"
| "cut_equals (ch # rest) =
     (if ch = CHR ''='' then Some ([], rest)
      else map_option (\<lambda>(name, val). (ch # name, val)) (cut_equals rest))"

fun read_lines :: "string \<Rightarrow> string list \<Rightarrow> error + UnitOption list" where
  "read_lines sec [] = Inr []"
| "read_lines sec (l # ls) =
     (if l = [] then read_lines sec ls
      else if hd l = CHR ''['' \<and> last l = CHR '']'' then read_lines (butlast (tl l)) ls
      else case cut_equals l of
        None \<Rightarrow> Inl (ErrDeserialize ''no = in line'')
      | Some (name, val) \<Rightarrow>
          (case read_lines sec ls of
             Inl e \<Rightarrow> Inl e
           | Inr opts \<Rightarrow> Inr (\<lparr>Section = sec, Name = trim name, Value = trim val\<rparr> # opts)))"

abbreviation trimming_lib :: lib where
  "trimming_lib \<equiv>
     \<lparr>unit_Serialize = (\<lambda>opts. concat (map write_option opts)),
      unit_Deserialize = (\<lambda>content. read_lines [] (split_lines content)),
      filepath_Dir = (\<lambda>p. ''/etc/systemd/nspawn'')\<rparr>"

section \<open>Package machineutil\<close>

unbundle bit_operations_syntax

subsection \<open>Functions of the standard library\<close>

text \<open>
  \<^verbatim>\<open>strings.Cut\<close>: the text before and after the first occurrence of the separator,
  or the whole string, the empty string and \<^verbatim>\<open>false\<close> when there is none.
\<close>

fun strings_Cut :: "string \<Rightarrow> string \<Rightarrow> string \<times> string \<times> bool" where
  "strings_Cut s sep =
     (if take (length sep) s = sep then ([], drop (length sep) s, True)
      else case s of
        [] \<Rightarrow> ([], [], False)
      | ch # rest \<Rightarrow>
          (case strings_Cut rest sep of
             (before, after, found) \<Rightarrow>
               if found then (ch # before, after, True) else (ch # rest, [], False)))"

text \<open>\<^verbatim>\<open>strings.Replace(s, old, new, 1)\<close>: the first occurrence of \<^verbatim>\<open>old\<close> replaced.\<close>

fun strings_Replace1 :: "string \<Rightarrow> string \<Rightarrow> string \<Rightarrow> string" where
  "strings_Replace1 s old new =
     (if take (length old) s = old then new @ drop (length old) s
      else case s of [] \<Rightarrow> [] | ch # rest \<Rightarrow> ch # strings_Replace1 rest old new)"

definition strings_HasPrefix :: "string \<Rightarrow> string \<Rightarrow> bool" where
  "strings_HasPrefix s prefix = (take (length prefix) s = prefix)"

definition strings_HasSuffix :: "string \<Rightarrow> string \<Rightarrow> bool" where
  "strings_HasSuffix s suffix =
     (length suffix \<le> length s \<and> drop (length s - length suffix) s = suffix)"

text \<open>
  \<^verbatim>\<open>strconv.Atoi\<close>, for Go's 64-bit \<^verbatim>\<open>int\<close>: an optional sign, then one or more
  decimal digits. The digits are read from the left; the first character that is no digit
  is a syntax error, and a value that leaves the unsigned 64-bit range (above
  \<open>2\<^sup>6\<^sup>4 - 1\<close>) a range error, as is a value that does not fit the signed range
  (\<open>2\<^sup>6\<^sup>3\<close> or more, or below \<open>- 2\<^sup>6\<^sup>3\<close>) once the sign is applied.
\<close>

definition is_digit :: "char \<Rightarrow> bool" where
  "is_digit ch = (CHR ''0'' \<le> ch \<and> ch \<le> CHR ''9'')"

definition digit_value :: "char \<Rightarrow> int" where
  "digit_value ch = int (of_char ch) - 48"

fun parse_digits :: "int \<Rightarrow> string \<Rightarrow> error + int" where
  "parse_digits n [] = Inr n"
| "parse_digits n (ch # rest) =
     (if \<not> is_digit ch then Inl (Errorf ''strconv.Atoi: invalid syntax'')
      else
        let n1 = 10 * n + digit_value ch
        in if 18446744073709551615 < n1 then Inl (Errorf ''strconv.Atoi: value out of range'')
           else parse_digits n1 rest)"

definition strconv_Atoi :: "string \<Rightarrow> error + int" where
  "strconv_Atoi s =
     (let (neg, ds) =
            (case s of
               ch # rest \<Rightarrow>
                 if ch = CHR ''+'' then (False, rest)
                 else if ch = CHR ''-'' then (True, rest)
                 else (False, s)
             | [] \<Rightarrow> (False, s))
      in if ds = [] then Inl (Errorf ''strconv.Atoi: invalid syntax'')
         else
           (case parse_digits 0 ds of
              Inl e \<Rightarrow> Inl e
            | Inr un \<Rightarrow>
                if \<not> neg \<and> 9223372036854775808 \<le> un
                then Inl (Errorf ''strconv.Atoi: value out of range'')
                else if neg \<and> 9223372036854775808 < un
                then Inl (Errorf ''strconv.Atoi: value out of range'')
                else Inr (if neg then - un else un)))"

text \<open>\<^verbatim>\<open>strconv.Itoa\<close>: the decimal digits, after a minus sign for a negative number.\<close>

function nat_digits :: "nat \<Rightarrow> string" where
  "nat_digits n =
     (if n < 10 then [char_of (48 + n)]
      else nat_digits (n div 10) @ [char_of (48 + n mod 10)])"
  by pat_completeness auto
termination
  by (relation "measure id") auto

definition strconv_Itoa :: "int \<Rightarrow> string" where
  "strconv_Itoa i = (if i < 0 then CHR ''-'' # nat_digits (nat (- i)) else nat_digits (nat i))"

text \<open>
  \<^verbatim>\<open>netip.Addr\<close>: the zero value (no address), an IPv4 address of four bytes or an
  IPv6 address of sixteen. \<^verbatim>\<open>netip.AddrFromSlice\<close> makes no other address, and none
  with a zone. The tests below follow the standard library, in which the tests for
  loopback, link-local and multicast addresses read an IPv4 address mapped into IPv6 as
  the IPv4 address.
\<close>

type_synonym byte = "8 word"

datatype Addr = AddrZero | Addr4 "byte list" | Addr6 "byte list"

definition netip_AddrFromSlice :: "byte list \<Rightarrow> Addr option" where
  "netip_AddrFromSlice bs =
     (if length bs = 4 then Some (Addr4 bs)
      else if length bs = 16 then Some (Addr6 bs)
      else None)"

definition IsValid :: "Addr \<Rightarrow> bool" where
  "IsValid ip = (ip \<noteq> AddrZero)"

definition Is4 :: "Addr \<Rightarrow> bool" where
  "Is4 ip = (case ip of Addr4 _ \<Rightarrow> True | _ \<Rightarrow> False)"

definition Is6 :: "Addr \<Rightarrow> bool" where
  "Is6 ip = (case ip of Addr6 _ \<Rightarrow> True | _ \<Rightarrow> False)"

definition Is4In6 :: "Addr \<Rightarrow> bool" where
  "Is4In6 ip =
     (case ip of
        Addr6 bs \<Rightarrow> take 10 bs = replicate 10 0 \<and> bs ! 10 = 0xff \<and> bs ! 11 = 0xff
      | _ \<Rightarrow> False)"

definition Unmap :: "Addr \<Rightarrow> Addr" where
  "Unmap ip = (case ip of Addr6 bs \<Rightarrow> if Is4In6 ip then Addr4 (drop 12 bs) else ip | _ \<Rightarrow> ip)"

definition v4 :: "Addr \<Rightarrow> nat \<Rightarrow> byte" where
  "v4 ip i = (case ip of Addr4 bs \<Rightarrow> bs ! i | _ \<Rightarrow> 0)"

definition v6 :: "Addr \<Rightarrow> nat \<Rightarrow> byte" where
  "v6 ip i = (case ip of Addr6 bs \<Rightarrow> bs ! i | _ \<Rightarrow> 0)"

definition v6u16 :: "Addr \<Rightarrow> nat \<Rightarrow> 16 word" where
  "v6u16 ip i = push_bit 8 (ucast (v6 ip (2 * i))) OR ucast (v6 ip (2 * i + 1))"

definition IsUnspecified :: "Addr \<Rightarrow> bool" where
  "IsUnspecified ip = (ip = Addr4 [0, 0, 0, 0] \<or> ip = Addr6 (replicate 16 0))"

definition IsLoopback :: "Addr \<Rightarrow> bool" where
  "IsLoopback ip0 =
     (let ip = (if Is4In6 ip0 then Unmap ip0 else ip0) in
      if Is4 ip then v4 ip 0 = 127
      else if Is6 ip then (case ip of Addr6 bs \<Rightarrow> bs = replicate 15 0 @ [1] | _ \<Rightarrow> False)
      else False)"

definition IsLinkLocalUnicast :: "Addr \<Rightarrow> bool" where
  "IsLinkLocalUnicast ip0 =
     (let ip = (if Is4In6 ip0 then Unmap ip0 else ip0) in
      if Is4 ip then v4 ip 0 = 169 \<and> v4 ip 1 = 254
      else if Is6 ip then v6u16 ip 0 AND 0xffc0 = 0xfe80
      else False)"

definition IsMulticast :: "Addr \<Rightarrow> bool" where
  "IsMulticast ip0 =
     (let ip = (if Is4In6 ip0 then Unmap ip0 else ip0) in
      if Is4 ip then v4 ip 0 AND 0xf0 = 0xe0
      else if Is6 ip then v6 ip 0 = 0xff
      else False)"

definition IsInterfaceLocalMulticast :: "Addr \<Rightarrow> bool" where
  "IsInterfaceLocalMulticast ip =
     (if Is6 ip \<and> \<not> Is4In6 ip then v6u16 ip 0 AND 0xff0f = 0xff01 else False)"

definition IsLinkLocalMulticast :: "Addr \<Rightarrow> bool" where
  "IsLinkLocalMulticast ip0 =
     (let ip = (if Is4In6 ip0 then Unmap ip0 else ip0) in
      if Is4 ip then v4 ip 0 = 224 \<and> v4 ip 1 = 0 \<and> v4 ip 2 = 0
      else if Is6 ip then v6u16 ip 0 AND 0xff0f = 0xff02
      else False)"

text \<open>
  \<^verbatim>\<open>sort.Sort\<close> with the collection's \<^verbatim>\<open>Less\<close>, here by insertion. Go's sort is not
  stable, so the source does not fix the order of two elements neither of which is less
  than the other; no theorem below depends on that order.
\<close>

fun insert_less :: "('a \<Rightarrow> 'a \<Rightarrow> bool) \<Rightarrow> 'a \<Rightarrow> 'a list \<Rightarrow> 'a list" where
  "insert_less lt x [] = [x]"
| "insert_less lt x (y # ys) =
     (if lt y x then y # insert_less lt x ys else x # y # ys)"

definition sort_Sort :: "('a \<Rightarrow> 'a \<Rightarrow> bool) \<Rightarrow> 'a list \<Rightarrow> 'a list" where
  "sort_Sort lt xs = foldr (insert_less lt) xs []"

subsection \<open>The message bus\<close>

text \<open>
  The values of a message body, a method call (destination, object path, member,
  arguments) and its reply: an error with its message, or a body.
\<close>

datatype dbus_value =
    DString string
  | DObjectPath string
  | DBool bool
  | DInt int
  | DByteArray "byte list"
  | DArray "dbus_value list"
  | DStruct "dbus_value list"
  | DVariant dbus_value

datatype call = Call string string string "dbus_value list"

type_synonym reply = "string + dbus_value list"

text \<open>
  The services on the bus are outside the program: their state changes on its own, and
  nothing is assumed about it. A connection is the calls made so far and the way the
  services answer, which may depend on every call made before.
\<close>

record bus =
  trace :: "call list"
  respond :: "call list \<Rightarrow> call \<Rightarrow> reply"

record BusObject =
  dest :: string
  path :: string

definition bus_Call :: "bus \<Rightarrow> BusObject \<Rightarrow> string \<Rightarrow> dbus_value list \<Rightarrow> reply \<times> bus" where
  "bus_Call b obj member arguments =
     (let c = Call (dest obj) (path obj) member arguments
      in (respond b (trace b) c, b\<lparr>trace := trace b @ [c]\<rparr>))"

text \<open>
  \<^verbatim>\<open>Call.Store\<close> into a variable of a given Go type: the error of the call, an error
  when the body does not have one value or the value does not go into that type, or the
  value stored. A variant stands for the value it wraps, however deep, and a value goes
  into a variable of a string type (\<^verbatim>\<open>string\<close>, \<^verbatim>\<open>dbus.ObjectPath\<close>) when Go
  converts it to one: a string, an object path, and an integer, which Go converts to the
  UTF-8 text of the code point it names (of U+FFFD when it names none).
\<close>

definition utf8_byte :: "int \<Rightarrow> char" where
  "utf8_byte b = char_of (nat b)"

definition rune_string :: "int \<Rightarrow> string" where
  "rune_string r =
     (if r < 0 \<or> 0x10FFFF < r \<or> (0xD800 \<le> r \<and> r \<le> 0xDFFF)
      then [utf8_byte 0xEF, utf8_byte 0xBF, utf8_byte 0xBD]
      else if r < 0x80 then [utf8_byte r]
      else if r < 0x800 then [utf8_byte (0xC0 + r div 64), utf8_byte (0x80 + r mod 64)]
      else if r < 0x10000 then
        [utf8_byte (0xE0 + r div 4096), utf8_byte (0x80 + (r div 64) mod 64),
         utf8_byte (0x80 + r mod 64)]
      else
        [utf8_byte (0xF0 + r div 262144), utf8_byte (0x80 + (r div 4096) mod 64),
         utf8_byte (0x80 + (r div 64) mod 64), utf8_byte (0x80 + r mod 64)])"

fun store_string_kind :: "dbus_value \<Rightarrow> error + string" where
  "store_string_kind (DVariant v) = store_string_kind v"
| "store_string_kind (DString s) = Inr s"
| "store_string_kind (DObjectPath p) = Inr p"
| "store_string_kind (DInt n) = Inr (rune_string n)"
| "store_string_kind v = Inl (Errorf ''dbus.Store: type mismatch'')"

definition Store_ObjectPath :: "reply \<Rightarrow> error + string" where
  "Store_ObjectPath r =
     (case r of
        Inl msg \<Rightarrow> Inl (ErrDBus msg)
      | Inr [v] \<Rightarrow> store_string_kind v
      | Inr _ \<Rightarrow> Inl (Errorf ''dbus.Store: length mismatch''))"

definition Store_string :: "reply \<Rightarrow> error + string" where
  "Store_string r =
     (case r of
        Inl msg \<Rightarrow> Inl (ErrDBus msg)
      | Inr [v] \<Rightarrow> store_string_kind v
      | Inr _ \<Rightarrow> Inl (Errorf ''dbus.Store: length mismatch''))"

fun rows_of :: "dbus_value list \<Rightarrow> (dbus_value list) list option" where
  "rows_of [] = Some []"
| "rows_of (DStruct row # rest) = map_option ((#) row) (rows_of rest)"
| "rows_of (_ # rest) = None"

definition Store_rows :: "reply \<Rightarrow> error + dbus_value list list" where
  "Store_rows r =
     (case r of
        Inl msg \<Rightarrow> Inl (ErrDBus msg)
      | Inr [DArray items] \<Rightarrow>
          (case rows_of items of
             None \<Rightarrow> Inl (Errorf ''dbus.Store: type mismatch'')
           | Some rows \<Rightarrow> Inr rows)
      | Inr _ \<Rightarrow> Inl (Errorf ''dbus.Store: type mismatch''))"

fun addresses_of :: "dbus_value list list \<Rightarrow> (int \<times> byte list) list option" where
  "addresses_of [] = Some []"
| "addresses_of ([DInt version, DByteArray addr] # rest) =
     map_option ((#) (version, addr)) (addresses_of rest)"
| "addresses_of (_ # rest) = None"

definition Store_addresses :: "reply \<Rightarrow> error + (int \<times> byte list) list" where
  "Store_addresses r =
     (case Store_rows r of
        Inl e \<Rightarrow> Inl e
      | Inr rows \<Rightarrow>
          (case addresses_of rows of
             None \<Rightarrow> Inl (Errorf ''dbus.Store: type mismatch'')
           | Some result \<Rightarrow> Inr result))"

subsection \<open>The manager and its registry\<close>

abbreviation machinedDbusService :: string where
  "machinedDbusService \<equiv> ''org.freedesktop.machine1''"

abbreviation machinedDbusInterface :: string where
  "machinedDbusInterface \<equiv> ''org.freedesktop.machine1.Manager''"

abbreviation machinedDbusMachineInterface :: string where
  "machinedDbusMachineInterface \<equiv> ''org.freedesktop.machine1.Machine''"

abbreviation machinedDbusPath :: string where
  "machinedDbusPath \<equiv> ''/org/freedesktop/machine1''"

abbreviation systemdDbusService :: string where
  "systemdDbusService \<equiv> ''org.freedesktop.systemd1''"

abbreviation systemdDbusInterface :: string where
  "systemdDbusInterface \<equiv> ''org.freedesktop.systemd1.Manager''"

abbreviation systemdDbusPath :: string where
  "systemdDbusPath \<equiv> ''/org/freedesktop/systemd1''"

record Image =
  Name :: string
  Path :: string

text \<open>
  A machine and a template each hold their bus object; their \<^verbatim>\<open>manager\<close> field is the
  one manager that made them, which the functions below take as an argument.
\<close>

record Machine =
  Name :: string
  object :: BusObject

record Template =
  Name :: string
  Version :: int
  object :: BusObject

text \<open>A job holds the bus object of the job that systemd started.\<close>

record Job =
  object :: BusObject

text \<open>
  The manager. The registry \<^verbatim>\<open>machines\<close> holds pointers: a \<^verbatim>\<open>*Machine\<close> is the
  index of the machine in \<open>heap\<close>, the list of the \<^verbatim>\<open>Machine\<close> objects constructed so
  far. Templates are never compared by address and never changed once made, so the
  template cache holds their values.
\<close>

record machineUtil =
  conn :: bus
  machined :: BusObject
  systemd :: BusObject
  machines :: "string \<rightharpoonup> nat"
  templates :: "string \<rightharpoonup> Template"
  heap :: "Machine list"

definition conn_Object :: "string \<Rightarrow> string \<Rightarrow> BusObject" where
  "conn_Object service p = \<lparr>dest = service, path = p\<rparr>"

definition object_Call ::
  "machineUtil \<Rightarrow> BusObject \<Rightarrow> string \<Rightarrow> dbus_value list \<Rightarrow> reply \<times> machineUtil" where
  "object_Call c obj member arguments =
     (case bus_Call (conn c) obj member arguments of (r, b) \<Rightarrow> (r, c\<lparr>conn := b\<rparr>))"

definition machineUtil_Start :: "machineUtil \<Rightarrow> string \<Rightarrow> (error + Job) \<times> machineUtil" where
  "machineUtil_Start c unit =
     (case object_Call c (systemd c) (systemdDbusInterface @ ''.StartUnit'')
             [DString unit, DString ''fail''] of
        (r, c') \<Rightarrow>
          (case Store_ObjectPath r of
             Inl e \<Rightarrow> (Inl e, c')
           | Inr retval \<Rightarrow> (Inr \<lparr>Job.object = conn_Object systemdDbusService retval\<rparr>, c')))"

definition machineUtil_Stop :: "machineUtil \<Rightarrow> string \<Rightarrow> (error + Job) \<times> machineUtil" where
  "machineUtil_Stop c unit =
     (case object_Call c (systemd c) (systemdDbusInterface @ ''.StopUnit'')
             [DString unit, DString ''fail''] of
        (r, c') \<Rightarrow>
          (case Store_ObjectPath r of
             Inl e \<Rightarrow> (Inl e, c')
           | Inr retval \<Rightarrow> (Inr \<lparr>Job.object = conn_Object systemdDbusService retval\<rparr>, c')))"

definition AddMachine :: "machineUtil \<Rightarrow> Image \<Rightarrow> (error + nat) \<times> machineUtil" where
  "AddMachine c img =
     (let machine =
            \<lparr>Machine.Name = Image.Name img,
             object = conn_Object machinedDbusService
                        (strings_Replace1 (Path img) ''image'' ''machine'')\<rparr>;
          pointer = length (heap c)
      in (Inr pointer,
          c\<lparr>heap := heap c @ [machine],
            machines := (machines c)(Image.Name img \<mapsto> pointer)\<rparr>))"

definition GetMachineFromImage :: "machineUtil \<Rightarrow> Image \<Rightarrow> (error + nat) \<times> machineUtil" where
  "GetMachineFromImage c img =
     (case machines c (Image.Name img) of
        Some res \<Rightarrow> (Inr res, c)
      | None \<Rightarrow> AddMachine c img)"

text \<open>
  \<^verbatim>\<open>GetImage\<close> returns both of its named results: the image, whose path stays empty
  when the call or \<^verbatim>\<open>Store\<close> fails, and the error.
\<close>

definition GetImage :: "machineUtil \<Rightarrow> string \<Rightarrow> (Image \<times> error option) \<times> machineUtil" where
  "GetImage c name =
     (case object_Call c (machined c) (machinedDbusInterface @ ''.GetImage'') [DString name] of
        (r, c') \<Rightarrow>
          (case Store_ObjectPath r of
             Inl e \<Rightarrow> ((\<lparr>Image.Name = name, Path = []\<rparr>, Some e), c')
           | Inr p \<Rightarrow> ((\<lparr>Image.Name = name, Path = p\<rparr>, None), c')))"

text \<open>
  \<^verbatim>\<open>err.Error()\<close>, the message of an error. Only errors of a bus call reach it in
  this package; the messages of the operating system's errors are not modelled.
\<close>

fun error_Error :: "error \<Rightarrow> string" where
  "error_Error (ErrDBus msg) = msg"
| "error_Error (Errorf msg) = msg"
| "error_Error (ErrDeserialize msg) = msg"
| "error_Error ErrAlreadyExists = ''image already exist''"
| "error_Error ErrNoSuchImage = ''image doesn'' @ [char_of (39 :: nat)] @ ''t exist''"
| "error_Error (ErrWrap e1 e2) = error_Error e1 @ '': '' @ error_Error e2"
| "error_Error ErrNotExist = ''file does not exist''"
| "error_Error (ErrSyscall k) = ''operation not permitted''"

definition GetMachine :: "machineUtil \<Rightarrow> string \<Rightarrow> (error + nat) \<times> machineUtil" where
  "GetMachine c fqdn =
     (case GetImage c fqdn of
        ((img, Some e), c1) \<Rightarrow>
          (let msg = error_Error e in
           if strings_HasPrefix msg ''No image'' \<and> strings_HasSuffix msg ''known''
           then (Inl (ErrWrap ErrNoSuchImage e), c1)
           else (Inl e, c1))
      | ((img, None), c1) \<Rightarrow>
          (case GetMachineFromImage c1 img of
             (Inl e, c2) \<Rightarrow> (Inl e, c2)
           | (Inr machine, c2) \<Rightarrow> (Inr machine, c2)))"

text \<open>\<^verbatim>\<open>Clone\<close> returns a pointer (or \<^verbatim>\<open>nil\<close>) and an error (or \<^verbatim>\<open>nil\<close>).\<close>

definition Clone ::
  "machineUtil \<Rightarrow> string \<Rightarrow> string \<Rightarrow> (nat option \<times> error option) \<times> machineUtil" where
  "Clone c src dst =
     (case GetImage c dst of
        ((img, None), c1) \<Rightarrow>
          (case GetMachineFromImage c1 img of
             (Inl e, c2) \<Rightarrow> ((None, Some e), c2)
           | (Inr machine, c2) \<Rightarrow> ((Some machine, Some ErrAlreadyExists), c2))
      | ((img, Some e), c1) \<Rightarrow>
          (case object_Call c1 (machined c1) (machinedDbusInterface @ ''.CloneImage'')
                  [DString src, DString dst, DBool False] of
             (Inl msg, c2) \<Rightarrow> ((None, Some (ErrDBus msg)), c2)
           | (Inr body, c2) \<Rightarrow>
               (case GetMachine c2 dst of
                  (Inl e', c3) \<Rightarrow> ((None, Some e'), c3)
                | (Inr machine, c3) \<Rightarrow> ((Some machine, None), c3))))"

fun listImages_loop :: "dbus_value list list \<Rightarrow> Image list \<Rightarrow> error + Image list" where
  "listImages_loop [] retval = Inr retval"
| "listImages_loop (i # rest) retval =
     (if length i < 7 then Inl (Errorf ''invalid number of image fields'')
      else case i ! 0 of
        DString name \<Rightarrow>
          (case i ! 6 of
             DObjectPath p \<Rightarrow>
               listImages_loop rest (retval @ [\<lparr>Image.Name = name, Path = p\<rparr>])
           | _ \<Rightarrow> Inl (Errorf ''failed to typecast image field 6 to dbus.ObjectPath''))
      | _ \<Rightarrow> Inl (Errorf ''failed to typecast image field 0 to string''))"

definition listImages :: "machineUtil \<Rightarrow> (error + Image list) \<times> machineUtil" where
  "listImages c =
     (case object_Call c (machined c) (machinedDbusInterface @ ''.ListImages'') [] of
        (r, c') \<Rightarrow>
          (case Store_rows r of
             Inl e \<Rightarrow> (Inl e, c')
           | Inr result \<Rightarrow> (listImages_loop result [], c')))"

subsection \<open>Templates\<close>

definition Template_Image :: "Template \<Rightarrow> string" where
  "Template_Image t = Template.Name t @ ''-template_'' @ strconv_Itoa (Version t)"

definition Template_Create ::
  "machineUtil \<Rightarrow> Template \<Rightarrow> string \<Rightarrow> (nat option \<times> error option) \<times> machineUtil" where
  "Template_Create c t fqdn = Clone c (Template_Image t) fqdn"

text \<open>The receiver of \<^verbatim>\<open>Template.Get\<close> may be \<^verbatim>\<open>nil\<close>.\<close>

definition Template_Get :: "Template option \<Rightarrow> string \<Rightarrow> Template option" where
  "Template_Get t name =
     (case t of
        None \<Rightarrow> None
      | Some t' \<Rightarrow> if name \<noteq> Template.Name t' then None else Some t')"

text \<open>
  \<^verbatim>\<open>TemplateVersions\<close> is a slice of template pointers; \<^verbatim>\<open>ListTemplates\<close>, the one
  place that builds one, stores no \<^verbatim>\<open>nil\<close>. \<^verbatim>\<open>Less\<close> is given the two elements in
  place of their indices.
\<close>

definition TemplateVersions_Less :: "Template \<Rightarrow> Template \<Rightarrow> bool" where
  "TemplateVersions_Less ti tj =
     (if Template.Name ti < Template.Name tj then True
      else if Template.Name ti > Template.Name tj then False
      else Version ti < Version tj)"

definition TemplateVersions_Template :: "Template list \<Rightarrow> Template option" where
  "TemplateVersions_Template t = (if length t = 0 then None else Some (t ! (length t - 1)))"

fun TemplateVersions_Get_loop :: "Template list \<Rightarrow> nat \<Rightarrow> string \<Rightarrow> Template option" where
  "TemplateVersions_Get_loop t 0 name = None"
| "TemplateVersions_Get_loop t (Suc i) name =
     (case Template_Get (Some (t ! i)) name of
        Some img \<Rightarrow> Some img
      | None \<Rightarrow> TemplateVersions_Get_loop t i name)"

definition TemplateVersions_Get :: "Template list \<Rightarrow> string \<Rightarrow> Template option" where
  "TemplateVersions_Get t name = TemplateVersions_Get_loop t (length t) name"

record Templates =
  Default :: string
  Templates :: "string \<rightharpoonup> Template list"

text \<open>Indexing a Go map with a key it does not hold gives the \<^verbatim>\<open>nil\<close> slice.\<close>

definition map_index :: "('k \<rightharpoonup> 'v list) \<Rightarrow> 'k \<Rightarrow> 'v list" where
  "map_index m k = (case m k of None \<Rightarrow> [] | Some v \<Rightarrow> v)"

definition Templates_Get :: "Templates \<Rightarrow> string \<Rightarrow> Template option" where
  "Templates_Get t name0 =
     (let name = (if name0 = [] then Default t else name0)
      in TemplateVersions_Get (map_index (Templates t) name) name)"

definition Templates_Template :: "Templates \<Rightarrow> Template option" where
  "Templates_Template t = TemplateVersions_Template (map_index (Templates t) (Default t))"

text \<open>
  What the lookups are to return. A template is in the catalog when some group holds it.
  The catalog is grouped and sorted when every group holds templates of the name it is
  filed under, in ascending order of \<^verbatim>\<open>Less\<close>, that is of (name, version). A result
  is the highest version of a name when it is a template of that name in the catalog
  with no higher version of the name in the catalog, or \<^verbatim>\<open>nil\<close> when the catalog has
  no template of that name.
\<close>

definition version_key :: "Template \<Rightarrow> string \<times> int" where
  "version_key t = (Template.Name t, Version t)"

definition in_catalog :: "Templates \<Rightarrow> Template \<Rightarrow> bool" where
  "in_catalog cat t \<longleftrightarrow> (\<exists>k ts. Templates cat k = Some ts \<and> t \<in> set ts)"

definition catalog_sorted :: "Templates \<Rightarrow> bool" where
  "catalog_sorted cat \<longleftrightarrow>
     (\<forall>k ts. Templates cat k = Some ts \<longrightarrow>
        sorted_wrt (\<lambda>a b. \<not> TemplateVersions_Less b a) ts \<and>
        (\<forall>t\<in>set ts. Template.Name t = k))"

definition highest_named :: "Templates \<Rightarrow> string \<Rightarrow> Template option \<Rightarrow> bool" where
  "highest_named cat name r =
     (case r of
        None \<Rightarrow> (\<forall>t. in_catalog cat t \<longrightarrow> Template.Name t \<noteq> name)
      | Some t \<Rightarrow>
          in_catalog cat t \<and> Template.Name t = name \<and>
          (\<forall>u. in_catalog cat u \<and> Template.Name u = name \<longrightarrow> Version u \<le> Version t))"

text \<open>
  The name and version that an image's name stands for, when it splits at
  \<^verbatim>\<open>-template_\<close> into a name and a version that parses as an integer.
\<close>

definition template_name_version :: "Image \<Rightarrow> (string \<times> int) option" where
  "template_name_version img =
     (case strings_Cut (Image.Name img) ''-template_'' of
        (name, version, found) \<Rightarrow>
          if found then
            (case strconv_Atoi version of Inl e \<Rightarrow> None | Inr ver \<Rightarrow> Some (name, ver))
          else None)"

definition template_named :: "Image \<Rightarrow> string \<Rightarrow> bool" where
  "template_named img name = (map_option fst (template_name_version img) = Some name)"

text \<open>
  The template cache is consistent when each template in it is named and versioned as the
  image name it is cached under says. The cache of a new manager is empty, and only
  \<^verbatim>\<open>ListTemplates\<close> adds to it.
\<close>

definition cache_consistent :: "machineUtil \<Rightarrow> bool" where
  "cache_consistent c \<longleftrightarrow>
     (\<forall>k t. templates c k = Some t \<longrightarrow>
        template_name_version \<lparr>Image.Name = k, Path = []\<rparr> = Some (Template.Name t, Version t))"

text \<open>One round of the loop of \<^verbatim>\<open>ListTemplates\<close> over the images.\<close>

definition ListTemplates_step ::
  "(string \<rightharpoonup> Template list) \<times> machineUtil \<Rightarrow> Image
    \<Rightarrow> (string \<rightharpoonup> Template list) \<times> machineUtil" where
  "ListTemplates_step st img =
     (case st of (retval, c) \<Rightarrow>
        (case strings_Cut (Image.Name img) ''-template_'' of
           (name, version, found) \<Rightarrow>
             if found then
               (case strconv_Atoi version of
                  Inl e \<Rightarrow> (retval, c)
                | Inr ver \<Rightarrow>
                    (case (case templates c (Image.Name img) of
                             Some tmpl \<Rightarrow> (tmpl, c)
                           | None \<Rightarrow>
                               (let tmpl = \<lparr>Template.Name = name, Version = ver,
                                             object = conn_Object machinedDbusService (Path img)\<rparr>
                                in (tmpl, c\<lparr>templates := (templates c)(Image.Name img \<mapsto> tmpl)\<rparr>)))
                     of (tmpl, c') \<Rightarrow> (retval(name \<mapsto> map_index retval name @ [tmpl]), c')))
             else (retval, c)))"

text \<open>
  The invariant of that loop, for the images \<open>xs\<close> read so far from a manager \<open>c1\<close>:
  every template in a group comes from an image read whose name stands for the group's
  name, and is the template cached under that image's name; the cache keeps what it held
  at the start, and what it has gained is named and versioned as the name of the image it
  is cached under says; no group is empty; and the group of a name holds, in the order of
  the listing, one template for every image read whose name stands for that name, the one
  cached under the image's name.
\<close>

definition loop_inv ::
  "machineUtil \<Rightarrow> Image list \<Rightarrow> (string \<rightharpoonup> Template list) \<times> machineUtil \<Rightarrow> bool" where
  "loop_inv c1 xs st \<longleftrightarrow>
     (case st of (retval, c') \<Rightarrow>
        (\<forall>name ts t. retval name = Some ts \<and> t \<in> set ts \<longrightarrow>
           (\<exists>img\<in>set xs. \<exists>ver. template_name_version img = Some (name, ver) \<and>
              templates c' (Image.Name img) = Some t)) \<and>
        (\<forall>k. templates c1 k \<noteq> None \<longrightarrow> templates c' k = templates c1 k) \<and>
        (\<forall>k t. templates c' k = Some t \<and> templates c1 k = None \<longrightarrow>
           (\<exists>img\<in>set xs. Image.Name img = k \<and>
              template_name_version img = Some (Template.Name t, Version t))) \<and>
        (\<forall>name. retval name \<noteq> Some []) \<and>
        (\<forall>name. list_all2 (\<lambda>img t. templates c' (Image.Name img) = Some t)
           (filter (\<lambda>img. template_named img name) xs) (map_index retval name)))"

definition ListTemplates :: "machineUtil \<Rightarrow> string \<Rightarrow> (error + Templates) \<times> machineUtil" where
  "ListTemplates c defaultTemplate =
     (case listImages c of
        (Inl e, c1) \<Rightarrow> (Inl e, c1)
      | (Inr images, c1) \<Rightarrow>
          (case foldl ListTemplates_step (Map.empty, c1) images of
             (retval, c2) \<Rightarrow>
               (Inr \<lparr>Default = defaultTemplate,
                     Templates = (\<lambda>k. map_option (sort_Sort TemplateVersions_Less) (retval k))\<rparr>,
                c2)))"

subsection \<open>Machines\<close>

definition Machine_Status :: "Machine \<Rightarrow> machineUtil \<Rightarrow> (error + string) \<times> machineUtil" where
  "Machine_Status m c =
     (case object_Call c (Machine.object m) ''org.freedesktop.DBus.Properties.Get''
             [DString machinedDbusMachineInterface, DString ''State''] of
        (r, c') \<Rightarrow> (Store_string r, c'))"

definition Running :: "Machine \<Rightarrow> machineUtil \<Rightarrow> bool \<times> machineUtil" where
  "Running m c =
     (case Machine_Status m c of
        (Inl e, c') \<Rightarrow> (False, c')
      | (Inr result, c') \<Rightarrow> (result = ''running'', c'))"

fun Addresses_loop :: "(int \<times> byte list) list \<Rightarrow> error + Addr list" where
  "Addresses_loop [] = Inr []"
| "Addresses_loop ((version, addr) # rest) =
     (case netip_AddrFromSlice addr of
        None \<Rightarrow> Inl (Errorf ''Got invalid ip'')
      | Some ip \<Rightarrow>
          (case Addresses_loop rest of
             Inl e \<Rightarrow> Inl e
           | Inr retval \<Rightarrow> Inr (ip # retval)))"

definition Addresses :: "Machine \<Rightarrow> machineUtil \<Rightarrow> (error + Addr list) \<times> machineUtil" where
  "Addresses m c =
     (case object_Call c (Machine.object m) (machinedDbusMachineInterface @ ''.GetAddresses'') [] of
        (r, c') \<Rightarrow>
          (case Store_addresses r of
             Inl e \<Rightarrow> (Inl e, c')
           | Inr result \<Rightarrow> (Addresses_loop result, c')))"

text \<open>The \<^verbatim>\<open>switch\<close> of \<^verbatim>\<open>WaitForAddress\<close>: whether an address reaches the default case.\<close>

definition address_kept :: "Addr \<Rightarrow> bool" where
  "address_kept addr =
     (if \<not> IsValid addr then False
      else if IsUnspecified addr then False
      else if IsLoopback addr then False
      else if IsLinkLocalUnicast addr then False
      else if IsLinkLocalMulticast addr then False
      else if IsInterfaceLocalMulticast addr then False
      else if IsMulticast addr then False
      else True)"

text \<open>
  The wait loops have no bound in the source. Each takes the number of rounds it may run;
  the result \<open>None\<close> says that the loop was still running after that many rounds.
\<close>

fun WaitForAddress ::
  "nat \<Rightarrow> Machine \<Rightarrow> machineUtil \<Rightarrow> (error + Addr list) option \<times> machineUtil" where
  "WaitForAddress 0 m c = (None, c)"
| "WaitForAddress (Suc fuel) m c =
     (case Addresses m c of
        (Inl e, c') \<Rightarrow> (Some (Inl e), c')
      | (Inr addrs, c') \<Rightarrow>
          (let result = filter address_kept addrs in
           if length result > 0 then (Some (Inr result), c')
           else WaitForAddress fuel m c'))"

text \<open>
  \<^verbatim>\<open>Job.Wait\<close> reads the job's state once a second until the read fails, which is its
  sign that the job is over, and then returns \<^verbatim>\<open>nil\<close>.
\<close>

fun Job_Wait :: "nat \<Rightarrow> Job \<Rightarrow> machineUtil \<Rightarrow> error option option \<times> machineUtil" where
  "Job_Wait 0 j c = (None, c)"
| "Job_Wait (Suc fuel) j c =
     (case object_Call c (Job.object j) ''org.freedesktop.DBus.Properties.Get''
             [DString ''org.freedesktop.systemd1.Job'', DString ''State''] of
        (r, c') \<Rightarrow>
          (case Store_string r of
             Inl e \<Rightarrow> (Some None, c')
           | Inr state \<Rightarrow> Job_Wait fuel j c'))"

fun Start_poll :: "nat \<Rightarrow> Machine \<Rightarrow> machineUtil \<Rightarrow> error option option \<times> machineUtil" where
  "Start_poll 0 m c = (None, c)"
| "Start_poll (Suc fuel) m c =
     (case Machine_Status m c of
        (Inl e, c') \<Rightarrow> (Some (Some e), c')
      | (Inr result, c') \<Rightarrow>
          if result = ''running'' then (Some None, c') else Start_poll fuel m c')"

definition Machine_Start ::
  "nat \<Rightarrow> Machine \<Rightarrow> machineUtil \<Rightarrow> error option option \<times> machineUtil" where
  "Machine_Start fuel m c =
     (case Running m c of
        (True, c1) \<Rightarrow> (Some None, c1)
      | (False, c1) \<Rightarrow>
          (case machineUtil_Start c1 (''systemd-nspawn@'' @ Machine.Name m @ ''.service'') of
             (Inl e, c2) \<Rightarrow> (Some (Some e), c2)
           | (Inr job, c2) \<Rightarrow>
               (case Job_Wait fuel job c2 of
                  (None, c3) \<Rightarrow> (None, c3)
                | (Some (Some e), c3) \<Rightarrow> (Some (Some e), c3)
                | (Some None, c3) \<Rightarrow> Start_poll fuel m c3)))"

fun Stop_poll :: "nat \<Rightarrow> Machine \<Rightarrow> machineUtil \<Rightarrow> error option option \<times> machineUtil" where
  "Stop_poll 0 m c = (None, c)"
| "Stop_poll (Suc fuel) m c =
     (case Running m c of
        (True, c') \<Rightarrow> Stop_poll fuel m c'
      | (False, c') \<Rightarrow> (Some None, c'))"

definition Machine_Stop ::
  "nat \<Rightarrow> Machine \<Rightarrow> machineUtil \<Rightarrow> error option option \<times> machineUtil" where
  "Machine_Stop fuel m c =
     (case Running m c of
        (False, c1) \<Rightarrow> (Some None, c1)
      | (True, c1) \<Rightarrow>
          (case machineUtil_Stop c1 (''systemd-nspawn@'' @ Machine.Name m @ ''.service'') of
             (Inl e, c2) \<Rightarrow> (Some (Some e), c2)
           | (Inr job, c2) \<Rightarrow>
               (case Job_Wait fuel job c2 of
                  (None, c3) \<Rightarrow> (None, c3)
                | (Some (Some e), c3) \<Rightarrow> (Some (Some e), c3)
                | (Some None, c3) \<Rightarrow> Stop_poll fuel m c3)))"

text \<open>The manager after a number of polls of a machine's addresses.\<close>

fun after_polls :: "nat \<Rightarrow> Machine \<Rightarrow> machineUtil \<Rightarrow> machineUtil" where
  "after_polls 0 m c = c"
| "after_polls (Suc k) m c = after_polls k m (snd (Addresses m c))"

subsection \<open>Example data\<close>

text \<open>
  A manager with an empty registry, connected to a bus that answers by the given
  function; a machine and two images named \<open>web\<close>; and the template \<open>base\<close> in two
  versions.
\<close>

abbreviation manager_on :: "(call list \<Rightarrow> call \<Rightarrow> reply) \<Rightarrow> machineUtil" where
  "manager_on answers \<equiv>
     \<lparr>conn = \<lparr>trace = [], respond = answers\<rparr>,
      machined = conn_Object machinedDbusService machinedDbusPath,
      systemd = conn_Object systemdDbusService systemdDbusPath,
      machines = Map.empty, templates = Map.empty, heap = []\<rparr>"

abbreviation web_machine :: Machine where
  "web_machine \<equiv>
     \<lparr>Machine.Name = ''web'',
      object = conn_Object machinedDbusService ''/org/freedesktop/machine1/machine/web''\<rparr>"

abbreviation web_image :: Image where
  "web_image \<equiv> \<lparr>Image.Name = ''web'', Path = ''/org/freedesktop/machine1/image/web''\<rparr>"


abbreviation base_v1 :: Template where
  "base_v1 \<equiv>
     \<lparr>Template.Name = ''base'', Version = 1,
      object = conn_Object machinedDbusService ''/org/freedesktop/machine1/image/base_1''\<rparr>"

abbreviation base_v2 :: Template where
  "base_v2 \<equiv>
     \<lparr>Template.Name = ''base'', Version = 2,
      object = conn_Object machinedDbusService ''/org/freedesktop/machine1/image/base_2''\<rparr>"

text \<open>A bus on which every call fails, and one on which every call returns an object path.\<close>

abbreviation failing_bus :: "call list \<Rightarrow> call \<Rightarrow> reply" where
  "failing_bus \<equiv> (\<lambda>history c. Inl ''No image web known'')"

abbreviation path_bus :: "call list \<Rightarrow> call \<Rightarrow> reply" where
  "path_bus \<equiv> (\<lambda>history c. Inr [DObjectPath ''/org/freedesktop/machine1/image/web''])"

text \<open>
  The addresses 127.0.0.1, fe80::1 and 203.0.113.5; a bus that reports all three on every
  poll, and one that reports the loopback address alone on the first call and all three
  from the second call on.
\<close>

abbreviation loopback_bytes :: "byte list" where
  "loopback_bytes \<equiv> [127, 0, 0, 1]"

abbreviation link_local_bytes :: "byte list" where
  "link_local_bytes \<equiv> [0xfe, 0x80, 0, 0, 0, 0, 0, 0, 0, 0, 0, 0, 0, 0, 0, 1]"

abbreviation public_bytes :: "byte list" where
  "public_bytes \<equiv> [203, 0, 113, 5]"

abbreviation three_addresses :: reply where
  "three_addresses \<equiv>
     Inr [DArray
       [DStruct [DInt 2, DByteArray loopback_bytes],
        DStruct [DInt 10, DByteArray link_local_bytes],
        DStruct [DInt 2, DByteArray public_bytes]]]"

abbreviation scenario_bus :: "call list \<Rightarrow> call \<Rightarrow> reply" where
  "scenario_bus \<equiv> (\<lambda>history c. three_addresses)"

abbreviation late_bus :: "call list \<Rightarrow> call \<Rightarrow> reply" where
  "late_bus \<equiv> (\<lambda>history c.
     if history = [] then Inr [DArray [DStruct [DInt 2, DByteArray loopback_bytes]]]
     else three_addresses)"

text \<open>The catalog of the template \<open>base\<close> in versions 1 and 2, with \<open>base\<close> the default.\<close>

abbreviation base_catalog :: Templates where
  "base_catalog \<equiv> \<lparr>Default = ''base'', Templates = [''base'' \<mapsto> [base_v1, base_v2]]\<rparr>"

text \<open>
  A bus whose image listing holds version 2 of \<open>base\<close>, an image with a version that is
  no number, a machine's image, and version 1 of \<open>base\<close>; and the images listed.
\<close>

abbreviation image_row :: "string \<Rightarrow> string \<Rightarrow> dbus_value" where
  "image_row name p \<equiv>
     DStruct [DString name, DString ''directory'', DBool False, DInt 0, DInt 0, DInt 0, DObjectPath p]"

abbreviation listing_bus :: "call list \<Rightarrow> call \<Rightarrow> reply" where
  "listing_bus \<equiv> (\<lambda>history c.
     Inr [DArray
       [image_row ''base-template_2'' ''/org/freedesktop/machine1/image/base_2'',
        image_row ''base-template_x'' ''/org/freedesktop/machine1/image/base_x'',
        image_row ''web'' ''/org/freedesktop/machine1/image/web'',
        image_row ''base-template_1'' ''/org/freedesktop/machine1/image/base_1'']])"

abbreviation listed_images :: "Image list" where
  "listed_images \<equiv>
     [\<lparr>Image.Name = ''base-template_2'', Path = ''/org/freedesktop/machine1/image/base_2''\<rparr>,
      \<lparr>Image.Name = ''base-template_x'', Path = ''/org/freedesktop/machine1/image/base_x''\<rparr>,
      web_image,
      \<lparr>Image.Name = ''base-template_1'', Path = ''/org/freedesktop/machine1/image/base_1''\<rparr>]"

section \<open>Theorems about package util\<close>

subsection \<open>The comparison and the sort\<close>

lemma CompareOptions_neg: "CompareOptions a b < 0 \<longleftrightarrow> triple a < triple b"
  by (auto simp: CompareOptions_def cmp_Compare_def triple_def Let_def)

lemma CompareOptions_pos: "0 < CompareOptions a b \<longleftrightarrow> triple b < triple a"
  by (auto simp: CompareOptions_def cmp_Compare_def triple_def Let_def)

lemma triple_inj: "triple a = triple b \<longleftrightarrow> a = b"
  by (auto simp: triple_def)

lemma CompareOptions_zero: "CompareOptions a b = 0 \<longleftrightarrow> a = b"
  by (auto simp: CompareOptions_def cmp_Compare_def Let_def)

lemma CompareOptions_le: "CompareOptions a b \<le> 0 \<longleftrightarrow> triple a \<le> triple b"
  using CompareOptions_pos[of a b] by auto

lemma sorted_by_CompareOptions: "sorted_by CompareOptions xs \<longleftrightarrow> sorted (map triple xs)"
  by (simp add: sorted_by_def CompareOptions_le sorted_map)


lemma mset_step_fresh:
  assumes "x \<notin># N"
  shows "add_mset x M - N = add_mset x (M - N)"
    and "add_mset x M \<inter># N = M \<inter># N"
    and "N - add_mset x M = N - M"
    and "N \<inter># add_mset x M = N \<inter># M"
  using assms by (auto simp: multiset_eq_iff not_in_iff)

lemma mset_step_same:
  shows "add_mset x M - add_mset x N = M - N"
    and "add_mset x M \<inter># add_mset x N = add_mset x (M \<inter># N)"
  by (auto simp: multiset_eq_iff)

lemma below_head_fresh:
  "sorted (map triple (y # ys)) \<Longrightarrow> triple x < triple y \<Longrightarrow> x \<notin> set (y # ys)"
  by auto

lemma loop_mset:
  "cmp = CompareOptions \<Longrightarrow> sorted (map triple A) \<Longrightarrow> sorted (map triple B) \<Longrightarrow>
   SliceDiffFunc_loop cmp A B add keep remove = (add', keep', remove') \<Longrightarrow>
   mset add' = mset add + (mset A - mset B) \<and>
   mset keep' = mset keep + (mset A \<inter># mset B) \<and>
   mset remove' = mset remove + (mset B - mset A)"
proof (induction cmp A B add keep remove rule: SliceDiffFunc_loop.induct)
  case (1 cmp x xs y ys add keep remove)
  note cmp = "1.prems"(1)
  note sA = "1.prems"(2) and sB = "1.prems"(3) and run = "1.prems"(4)
  have sx: "sorted (map triple xs)" and sy: "sorted (map triple ys)"
    using sA sB by simp_all
  consider (lt) "triple x < triple y" | (gt) "triple y < triple x" | (eq) "x = y"
    using triple_inj[of x y] by fastforce
  then show ?case
  proof cases
    case lt
    then have c: "cmp x y < 0" by (simp add: cmp CompareOptions_neg)
    have fresh: "x \<notin># mset (y # ys)"
      using below_head_fresh[OF sB lt] by simp
    have "SliceDiffFunc_loop cmp xs (y # ys) (add @ [x]) keep remove = (add', keep', remove')"
      using run c by simp
    from "1.IH"(1)[OF refl c cmp sx sB this]
    show ?thesis using mset_step_fresh[OF fresh, of "mset xs"] by simp
  next
    case gt
    then have c: "\<not> cmp x y < 0" "0 < cmp x y"
      using CompareOptions_pos[of x y] CompareOptions_neg[of x y] by (simp_all add: cmp)
    have fresh: "y \<notin># mset (x # xs)"
      using below_head_fresh[OF sA gt] by simp
    have "SliceDiffFunc_loop cmp (x # xs) ys add keep (remove @ [y]) = (add', keep', remove')"
      using run c by simp
    from "1.IH"(2)[OF refl c cmp sA sy this]
    show ?thesis using mset_step_fresh[OF fresh, of "mset ys"]
      by simp
  next
    case eq
    then have c: "\<not> cmp x y < 0" "\<not> 0 < cmp x y"
      using CompareOptions_zero[of x y] by (simp_all add: cmp)
    have "SliceDiffFunc_loop cmp xs ys add (keep @ [y]) remove = (add', keep', remove')"
      using run c by simp
    from "1.IH"(3)[OF refl c cmp sx sy this]
    show ?thesis using eq mset_step_same[of y "mset xs" "mset ys"] by simp
  qed
qed auto


lemma loop_sorted:
  "sorted (map triple (add @ A)) \<Longrightarrow> sorted (map triple (keep @ B)) \<Longrightarrow>
   SliceDiffFunc_loop cmp A B add keep remove = (add', keep', remove') \<Longrightarrow>
   sorted (map triple add') \<and> sorted (map triple keep')"
proof (induction cmp A B add keep remove rule: SliceDiffFunc_loop.induct)
  case (1 cmp x xs y ys add keep remove)
  then show ?case
    by (auto simp: Let_def sorted_append split: if_splits)
qed (auto simp: sorted_append)

lemma sorted_triple_unique:
  assumes "sorted (map triple xs)" "sorted (map triple ys)" "mset xs = mset ys"
  shows "xs = ys"
proof -
  have "mset (map triple xs) = mset (map triple ys)"
    using assms(3) by simp
  then have "map triple xs = map triple ys"
    using assms(1,2) by (metis properties_for_sort sorted_sort_id)
  moreover have "inj triple"
    by (rule injI) (simp add: triple_inj)
  ultimately show ?thesis
    by (simp add: inj_map_eq_map)
qed

lemma mset_merge_by: "mset (merge_by cmp xs ys) = mset xs + mset ys"
  by (induction cmp xs ys rule: merge_by.induct) auto

lemma set_merge_by: "set (merge_by cmp xs ys) = set xs \<union> set ys"
  by (induction cmp xs ys rule: merge_by.induct) auto

lemma sorted_merge_by:
  "cmp = CompareOptions \<Longrightarrow> sorted (map triple xs) \<Longrightarrow> sorted (map triple ys) \<Longrightarrow>
   sorted (map triple (merge_by cmp xs ys))"
proof (induction cmp xs ys rule: merge_by.induct)
  case (3 cmp x xs y ys)
  show ?case
  proof (cases "cmp x y \<le> 0")
    case True
    then have "triple x \<le> triple y" using "3.prems"(1) by (simp add: CompareOptions_le)
    then show ?thesis
      using True 3 by (auto simp: set_merge_by)
  next
    case False
    then have "triple y \<le> triple x" using "3.prems"(1) by (simp add: CompareOptions_le)
    then show ?thesis
      using False 3 by (auto simp: set_merge_by)
  qed
qed simp_all

lemma mset_insert_by: "mset (insert_by cmp x xs) = add_mset x (mset xs)"
  by (induction xs) auto

lemma set_insert_by: "set (insert_by cmp x xs) = insert x (set xs)"
  by (induction xs) auto

lemma mset_SortFunc: "mset (SortFunc xs cmp) = mset xs"
  by (induction xs) (auto simp: SortFunc_def mset_insert_by)

lemma sorted_insert_by:
  "sorted (map triple xs) \<Longrightarrow> sorted (map triple (insert_by CompareOptions x xs))"
proof (induction xs)
  case (Cons y ys)
  show ?case
  proof (cases "CompareOptions x y \<le> 0")
    case True
    then show ?thesis using Cons.prems by (auto simp: CompareOptions_le)
  next
    case False
    then have "triple y \<le> triple x" by (simp add: CompareOptions_le)
    then show ?thesis using False Cons by (auto simp: set_insert_by)
  qed
qed simp

lemma sorted_SortFunc: "sorted (map triple (SortFunc xs CompareOptions))"
  by (induction xs) (auto simp: SortFunc_def sorted_insert_by simp del: insert_by.simps)

lemma mset_diff_inter: "(M - N) + (M \<inter># N) = (M :: 'a multiset)"
  by (auto simp: multiset_eq_iff)

lemma distinct_set_diff:
  assumes "distinct xs"
  shows "set_mset (mset xs - mset ys) = set xs - set ys"
proof (rule set_eqI)
  fix x
  have le: "count (mset xs) x \<le> 1"
    using assms by (simp add: distinct_count_atmost_1)
  have "x \<in># mset xs - mset ys \<longleftrightarrow> count (mset ys) x < count (mset xs) x"
    by (simp add: in_diff_count)
  also have "\<dots> \<longleftrightarrow> count (mset xs) x \<noteq> 0 \<and> count (mset ys) x = 0"
    using le by arith
  also have "\<dots> \<longleftrightarrow> x \<in> set xs - set ys"
    by (simp add: count_eq_zero_iff)
  finally show "x \<in> set_mset (mset xs - mset ys) \<longleftrightarrow> x \<in> set xs - set ys" .
qed

text \<open>
  Claim C1, as amended. For option lists \<open>A\<close> (desired) and \<open>B\<close> (current), each sorted
  by \<^const>\<open>CompareOptions\<close>, the three lists that \<^const>\<open>SliceDiffFunc\<close> returns
  are, as multisets of triples, \<open>add = A - B\<close>, \<open>remove = B - A\<close> and
  \<open>keep = A \<inter> B\<close>; the sorted merge of \<open>add\<close> and \<open>keep\<close> is \<open>A\<close>; \<open>keep\<close> is the
  intersection as a set too, and when neither list repeats an option, \<open>add\<close> and
  \<open>remove\<close> are the two differences as sets.
\<close>

theorem SliceDiffFunc_partition:
  assumes "sorted_by CompareOptions A" and "sorted_by CompareOptions B"
    and "SliceDiffFunc A B CompareOptions = (add, keep, remove)"
  shows "mset add = mset A - mset B \<and> mset remove = mset B - mset A \<and>
         mset keep = mset A \<inter># mset B \<and>
         merge_by CompareOptions add keep = A \<and>
         set keep = set A \<inter> set B \<and>
         (distinct A \<and> distinct B \<longrightarrow> set add = set A - set B \<and> set remove = set B - set A)"
proof -
  have sA: "sorted (map triple A)" and sB: "sorted (map triple B)"
    using assms(1,2) by (simp_all add: sorted_by_CompareOptions)
  have run: "SliceDiffFunc_loop CompareOptions A B [] [] [] = (add, keep, remove)"
    using assms(3) by (simp add: SliceDiffFunc_def)
  have m: "mset add = mset A - mset B" "mset keep = mset A \<inter># mset B"
    "mset remove = mset B - mset A"
    using loop_mset[OF refl sA sB run] by simp_all
  have s: "sorted (map triple add)" "sorted (map triple keep)"
    using loop_sorted[OF _ _ run] sA sB by simp_all
  have "mset (merge_by CompareOptions add keep) = mset A"
    by (simp add: mset_merge_by m mset_diff_inter)
  then have mrg: "merge_by CompareOptions add keep = A"
    using sorted_triple_unique sorted_merge_by[OF refl s] sA by blast
  have k: "set keep = set A \<inter> set B"
    using m(2) by (metis set_mset_inter set_mset_mset)
  have d: "set add = set A - set B" "set remove = set B - set A" if "distinct A" "distinct B"
    using that m(1,3) distinct_set_diff by (metis set_mset_mset)+
  show ?thesis using m mrg k d by blast
qed


text \<open>
  Claim C1 as stated fails on a sorted list that repeats an option: with the desired list
  holding an option twice and the current list holding it once, one copy is kept and one
  is added, so \<open>add\<close> is not the set difference (which is empty).
\<close>

theorem SliceDiffFunc_sets_counterexample:
  "sorted_by CompareOptions [opt_boot, opt_boot] \<and>
   sorted_by CompareOptions [opt_boot] \<and>
   SliceDiffFunc [opt_boot, opt_boot] [opt_boot] CompareOptions =
     ([opt_boot], [opt_boot], []) \<and>
   set [opt_boot] \<noteq> set [opt_boot, opt_boot] - set [opt_boot]"
  by (simp add: sorted_by_def SliceDiffFunc_def CompareOptions_def cmp_Compare_def)

theorem SliceDiffFunc_partition_witness:
  "sorted_by CompareOptions [opt_boot, opt_bind] \<and>
   sorted_by CompareOptions [opt_bind, opt_zone] \<and>
   SliceDiffFunc [opt_boot, opt_bind] [opt_bind, opt_zone] CompareOptions =
     ([opt_boot], [opt_bind], [opt_zone]) \<and>
   mset [opt_boot] = mset [opt_boot, opt_bind] - mset [opt_bind, opt_zone] \<and>
   mset [opt_zone] = mset [opt_bind, opt_zone] - mset [opt_boot, opt_bind] \<and>
   merge_by CompareOptions [opt_boot] [opt_bind] = [opt_boot, opt_bind] \<and>
   set [opt_boot] = set [opt_boot, opt_bind] - set [opt_bind, opt_zone] \<and>
   set [opt_zone] = set [opt_bind, opt_zone] - set [opt_boot, opt_bind]"
proof -
  have sA: "sorted_by CompareOptions [opt_boot, opt_bind]"
    by (simp add: sorted_by_def CompareOptions_def cmp_Compare_def)
  have sB: "sorted_by CompareOptions [opt_bind, opt_zone]"
    by (simp add: sorted_by_def CompareOptions_def cmp_Compare_def)
  have run: "SliceDiffFunc [opt_boot, opt_bind] [opt_bind, opt_zone] CompareOptions =
      ([opt_boot], [opt_bind], [opt_zone])"
    by (simp add: SliceDiffFunc_def CompareOptions_def cmp_Compare_def)
  have d: "distinct [opt_boot, opt_bind] \<and> distinct [opt_bind, opt_zone]" by simp
  show ?thesis
    using SliceDiffFunc_partition[OF sA sB run] sA sB run d by blast
qed

subsection \<open>Reading, writing and reconciling a unit file\<close>

lemma SortFunc_Nil: "SortFunc [] cmp = []"
  by (simp add: SortFunc_def)

lemma SortFunc_sorted_id:
  "sorted (map triple xs) \<Longrightarrow> SortFunc xs CompareOptions = xs"
  by (rule sorted_triple_unique) (simp_all add: sorted_SortFunc mset_SortFunc)

lemma SortFunc_cong_mset:
  "mset xs = mset ys \<Longrightarrow> SortFunc xs CompareOptions = SortFunc ys CompareOptions"
  by (rule sorted_triple_unique) (simp_all add: sorted_SortFunc mset_SortFunc)

lemma diff_unchanged_iff:
  assumes "sorted (map triple A)" "sorted (map triple B)"
    and "SliceDiffFunc A B CompareOptions = (add, keep, remove)"
  shows "add = [] \<and> remove = [] \<longleftrightarrow> A = B"
proof -
  have run: "SliceDiffFunc_loop CompareOptions A B [] [] [] = (add, keep, remove)"
    using assms(3) by (simp add: SliceDiffFunc_def)
  have m: "mset add = mset A - mset B" "mset remove = mset B - mset A"
    using loop_mset[OF refl assms(1,2) run] by simp_all
  show ?thesis
  proof
    assume "add = [] \<and> remove = []"
    then have "mset A \<subseteq># mset B" "mset B \<subseteq># mset A"
      using m by (simp_all add: Diff_eq_empty_iff_mset[symmetric])
    then have "mset A = mset B" by (rule subset_mset.antisym)
    then show "A = B" using sorted_triple_unique assms(1,2) by blast
  next
    assume "A = B"
    then show "add = [] \<and> remove = []" using m by simp
  qed
qed

lemma ReadUnit_sorted:
  "ReadUnit l fs p True = Inr cur \<Longrightarrow> sorted (map triple cur)"
  by (auto simp: ReadUnit_def sorted_SortFunc split: option.splits sum.splits if_splits)

lemma EnsureUnit_read_ok:
  assumes "ReadUnit l fs p True = Inr cur"
  shows "EnsureUnit l log fs p in_opts =
     (let opts = SortFunc in_opts CompareOptions;
          (add, keep, remove) = SliceDiffFunc opts cur CompareOptions;
          log' = log_options log p add keep remove
      in if cur = opts
         then \<lparr>changed = False, err = None, fs_out = fs, log_out = log'\<rparr>
         else \<lparr>changed = True, err = fst (WriteUnit l fs p opts),
                fs_out = snd (WriteUnit l fs p opts), log_out = log'\<rparr>)"
proof -
  obtain add keep remove where
    d: "SliceDiffFunc (SortFunc in_opts CompareOptions) cur CompareOptions = (add, keep, remove)"
    by (metis prod_cases3)
  have "add = [] \<and> remove = [] \<longleftrightarrow> SortFunc in_opts CompareOptions = cur"
    using diff_unchanged_iff[OF sorted_SortFunc ReadUnit_sorted[OF assms] d] .
  then show ?thesis
    using assms d by (auto simp: EnsureUnit_def Let_def split: prod.splits)
qed

lemma WriteUnit_ok:
  assumes "calls_succeed l fs p"
  shows "WriteUnit l fs p opts =
     (None,
      if opts = [] then (if files fs p = None then fs else fs\<lparr>files := (files fs)(p := None)\<rparr>)
      else fs\<lparr>files := (files fs)(p \<mapsto> unit_Serialize l opts),
               dirs := insert (filepath_Dir l p) (dirs fs)\<rparr>)"
  using assms
  by (auto simp: WriteUnit_def calls_succeed_def os_Stat_def os_IsNotExist_def os_Remove_def
      os_MkdirAll_def os_Create_def io_Copy_def)


lemma ReadUnit_present:
  assumes "\<not> fails fs Stat p" "\<not> fails fs Open p" "files fs p = Some content"
  shows "ReadUnit l fs p srt =
     (case unit_Deserialize l content of
        Inl e \<Rightarrow> Inl e
      | Inr opts \<Rightarrow> Inr (if srt then SortFunc opts CompareOptions else opts))"
  using assms by (simp add: ReadUnit_def os_Stat_def os_Open_def)

lemma ReadUnit_missing:
  assumes "\<not> fails fs Stat p" "files fs p = None"
  shows "ReadUnit l fs p srt = Inr []"
  using assms by (simp add: ReadUnit_def os_Stat_def os_IsNotExist_def)

lemma SortFunc_eq_Nil: "SortFunc xs cmp = [] \<longleftrightarrow> xs = []"
  by (metis mset_SortFunc mset_zero_iff)

text \<open>
  Claim C2, as amended. On a path where the operating system refuses no call, with a file
  (if there is one) that parses, and for desired options that the unit file format gives
  back when written and read (in any order): the first \<^const>\<open>EnsureUnit\<close> reports a change
  whenever the persisted set of options differs from the desired one, the second reports
  none and leaves the disk as the first left it, neither returns an error, and after the
  first the file, read back and sorted, is the sorted desired list.
\<close>

theorem EnsureUnit_idempotent:
  assumes ok: "calls_succeed l fs file_path"
    and rd: "ReadUnit l fs file_path True = Inr cur"
    and rt: "unit_Deserialize l (unit_Serialize l (SortFunc in_opts CompareOptions)) = Inr back"
    and perm: "mset back = mset in_opts"
  shows "let r1 = EnsureUnit l log1 fs file_path in_opts;
             r2 = EnsureUnit l log2 (fs_out r1) file_path in_opts
         in (set cur \<noteq> set in_opts \<longrightarrow> changed r1) \<and> err r1 = None \<and>
            \<not> changed r2 \<and> err r2 = None \<and> fs_out r2 = fs_out r1 \<and>
            ReadUnit l (fs_out r1) file_path True = Inr (SortFunc in_opts CompareOptions)"
proof -
  let ?opts = "SortFunc in_opts CompareOptions"
  define r1 where "r1 = EnsureUnit l log1 fs file_path in_opts"
  define r2 where "r2 = EnsureUnit l log2 (fs_out r1) file_path in_opts"
  have fl: "\<not> fails fs Stat file_path" "\<not> fails fs Open file_path"
    using ok by (simp_all add: calls_succeed_def)
  have r1: "changed r1 = (cur \<noteq> ?opts)" "err r1 = (if cur = ?opts then None else fst (WriteUnit l fs file_path ?opts))"
    "fs_out r1 = (if cur = ?opts then fs else snd (WriteUnit l fs file_path ?opts))"
    unfolding r1_def EnsureUnit_read_ok[OF rd] by (simp_all add: Let_def split: prod.splits)
  have c1: "changed r1" if "set cur \<noteq> set in_opts"
  proof -
    have "set ?opts = set in_opts" by (metis mset_SortFunc set_mset_mset)
    then show ?thesis using that r1(1) by auto
  qed
  have e1: "err r1 = None"
    using r1(2) WriteUnit_ok[OF ok] by simp
  have rd1: "ReadUnit l (fs_out r1) file_path True = Inr ?opts"
  proof (cases "cur = ?opts")
    case True
    then show ?thesis using r1(3) rd by simp
  next
    case False
    show ?thesis
    proof (cases "in_opts = []")
      case True
      then have "fs_out r1 = (if files fs file_path = None then fs else fs\<lparr>files := (files fs)(file_path := None)\<rparr>)"
        using r1(3) False WriteUnit_ok[OF ok] by (simp add: SortFunc_Nil)
      then show ?thesis
        using True fl by (auto simp: ReadUnit_missing SortFunc_Nil)
    next
      case nonempty: False
      then have ne: "?opts \<noteq> []" by (simp add: SortFunc_eq_Nil)
      have "fs_out r1 = fs\<lparr>files := (files fs)(file_path \<mapsto> unit_Serialize l ?opts),
               dirs := insert (filepath_Dir l file_path) (dirs fs)\<rparr>"
        using r1(3) False ne WriteUnit_ok[OF ok] by simp
      then have "ReadUnit l (fs_out r1) file_path True = Inr (SortFunc back CompareOptions)"
        using fl rt by (simp add: ReadUnit_present)
      then show ?thesis
        using SortFunc_cong_mset[OF perm] by simp
    qed
  qed
  have r2: "\<not> changed r2" "err r2 = None" "fs_out r2 = fs_out r1"
    unfolding r2_def EnsureUnit_read_ok[OF rd1] by (simp_all add: Let_def split: prod.splits)
  show ?thesis
    using c1 e1 rd1 r2 unfolding Let_def r1_def[symmetric] r2_def[symmetric] by blast
qed

text \<open>
  Claim C2 as stated fails for a desired option that the unit file format does not give
  back: with the format above and the value \<open>" yes"\<close>, the file written by the first
  call reads back as \<open>"yes"\<close>, so the second call finds a difference and reports a
  change again, and the file read back is not the desired list.
\<close>

theorem EnsureUnit_second_call_counterexample:
  "calls_succeed trimming_lib empty_disk ''/etc/systemd/nspawn/web.nspawn'' \<and>
   ReadUnit trimming_lib empty_disk ''/etc/systemd/nspawn/web.nspawn'' True = Inr [] \<and>
   changed (EnsureUnit trimming_lib None empty_disk ''/etc/systemd/nspawn/web.nspawn'' [opt_blank]) \<and>
   err (EnsureUnit trimming_lib None empty_disk ''/etc/systemd/nspawn/web.nspawn'' [opt_blank]) = None \<and>
   changed (EnsureUnit trimming_lib None
      (fs_out (EnsureUnit trimming_lib None empty_disk ''/etc/systemd/nspawn/web.nspawn'' [opt_blank]))
      ''/etc/systemd/nspawn/web.nspawn'' [opt_blank]) \<and>
   ReadUnit trimming_lib
      (fs_out (EnsureUnit trimming_lib None empty_disk ''/etc/systemd/nspawn/web.nspawn'' [opt_blank]))
      ''/etc/systemd/nspawn/web.nspawn'' True = Inr [opt_boot] \<and>
   SortFunc [opt_blank] CompareOptions = [opt_blank] \<and>
   [opt_boot] \<noteq> [opt_blank]"
  by code_simp

theorem EnsureUnit_idempotent_witness:
  "calls_succeed trimming_lib empty_disk ''/etc/systemd/nspawn/web.nspawn'' \<and>
   ReadUnit trimming_lib empty_disk ''/etc/systemd/nspawn/web.nspawn'' True = Inr [] \<and>
   changed (EnsureUnit trimming_lib None empty_disk ''/etc/systemd/nspawn/web.nspawn'' [opt_boot]) \<and>
   files (fs_out (EnsureUnit trimming_lib None empty_disk ''/etc/systemd/nspawn/web.nspawn'' [opt_boot]))
     ''/etc/systemd/nspawn/web.nspawn'' = Some ''[Exec]\<newline>Boot=yes\<newline>'' \<and>
   \<not> changed (EnsureUnit trimming_lib None
       (fs_out (EnsureUnit trimming_lib None empty_disk ''/etc/systemd/nspawn/web.nspawn'' [opt_boot]))
       ''/etc/systemd/nspawn/web.nspawn'' [opt_boot]) \<and>
   ReadUnit trimming_lib
       (fs_out (EnsureUnit trimming_lib None empty_disk ''/etc/systemd/nspawn/web.nspawn'' [opt_boot]))
       ''/etc/systemd/nspawn/web.nspawn'' True = Inr [opt_boot]"
proof -
  let ?p = "''/etc/systemd/nspawn/web.nspawn''"
  have ok: "calls_succeed trimming_lib empty_disk ?p"
    by (simp add: calls_succeed_def)
  have rd: "ReadUnit trimming_lib empty_disk ?p True = Inr []"
    by (simp add: ReadUnit_missing)
  have s: "SortFunc [opt_boot] CompareOptions = [opt_boot]"
    by (simp add: SortFunc_def)
  have rt: "unit_Deserialize trimming_lib
      (unit_Serialize trimming_lib (SortFunc [opt_boot] CompareOptions)) = Inr [opt_boot]"
    by code_simp
  have w: "files (fs_out (EnsureUnit trimming_lib None empty_disk ?p [opt_boot])) ?p = Some ''[Exec]\<newline>Boot=yes\<newline>''"
    unfolding EnsureUnit_read_ok[OF rd] WriteUnit_ok[OF ok]
    by (simp add: s Let_def write_option_def split: prod.splits)
  show ?thesis
    using EnsureUnit_idempotent[OF ok rd rt refl, of None None] ok rd w
    by (simp add: Let_def s)
qed

text \<open>
  Claim C3. With an empty desired list, \<^const>\<open>EnsureUnit\<close> on an existing file that
  holds at least one option (and can be read and removed) deletes the file and reports a
  change; on a path with no file it reports no change and leaves the file system as it
  was.
\<close>

theorem EnsureUnit_empty_desired:
  "(\<not> fails fs Stat file_path \<and> \<not> fails fs Open file_path \<and> \<not> fails fs Remove file_path \<and>
    files fs file_path = Some content \<and> unit_Deserialize l content = Inr cur \<and> cur \<noteq> [] \<longrightarrow>
      (let r = EnsureUnit l log fs file_path [] in
       changed r \<and> err r = None \<and> fs_out r = fs\<lparr>files := (files fs)(file_path := None)\<rparr>)) \<and>
   (\<not> fails fs Stat file_path \<and> files fs file_path = None \<longrightarrow>
      (let r = EnsureUnit l log fs file_path [] in
       \<not> changed r \<and> err r = None \<and> fs_out r = fs))"
proof (intro conjI impI)
  assume a: "\<not> fails fs Stat file_path \<and> \<not> fails fs Open file_path \<and> \<not> fails fs Remove file_path \<and>
    files fs file_path = Some content \<and> unit_Deserialize l content = Inr cur \<and> cur \<noteq> []"
  then have rd: "ReadUnit l fs file_path True = Inr (SortFunc cur CompareOptions)"
    by (simp add: ReadUnit_present)
  have ne: "SortFunc cur CompareOptions \<noteq> []"
    using a by (simp add: SortFunc_eq_Nil)
  have w: "WriteUnit l fs file_path [] = (None, fs\<lparr>files := (files fs)(file_path := None)\<rparr>)"
    using a by (simp add: WriteUnit_def os_Stat_def os_Remove_def)
  show "let r = EnsureUnit l log fs file_path [] in
       changed r \<and> err r = None \<and> fs_out r = fs\<lparr>files := (files fs)(file_path := None)\<rparr>"
    unfolding EnsureUnit_read_ok[OF rd] using ne w
    by (simp add: Let_def SortFunc_Nil split: prod.splits)
next
  assume a: "\<not> fails fs Stat file_path \<and> files fs file_path = None"
  then have rd: "ReadUnit l fs file_path True = Inr []"
    by (simp add: ReadUnit_missing)
  show "let r = EnsureUnit l log fs file_path [] in \<not> changed r \<and> err r = None \<and> fs_out r = fs"
    unfolding EnsureUnit_read_ok[OF rd]
    by (simp add: Let_def SortFunc_Nil split: prod.splits)
qed

theorem EnsureUnit_empty_desired_witness:
  "files (empty_disk\<lparr>files := [''/etc/systemd/nspawn/web.nspawn'' \<mapsto> ''[Exec]\<newline>Boot=yes\<newline>'']\<rparr>)
     ''/etc/systemd/nspawn/web.nspawn'' = Some ''[Exec]\<newline>Boot=yes\<newline>'' \<and>
   unit_Deserialize boot_lib ''[Exec]\<newline>Boot=yes\<newline>'' = Inr [opt_boot] \<and>
   changed (EnsureUnit boot_lib None
      (empty_disk\<lparr>files := [''/etc/systemd/nspawn/web.nspawn'' \<mapsto> ''[Exec]\<newline>Boot=yes\<newline>'']\<rparr>)
      ''/etc/systemd/nspawn/web.nspawn'' []) \<and>
   fs_out (EnsureUnit boot_lib None
      (empty_disk\<lparr>files := [''/etc/systemd/nspawn/web.nspawn'' \<mapsto> ''[Exec]\<newline>Boot=yes\<newline>'']\<rparr>)
      ''/etc/systemd/nspawn/web.nspawn'' []) = empty_disk \<and>
   files empty_disk ''/etc/systemd/nspawn/web.nspawn'' = None \<and>
   \<not> changed (EnsureUnit boot_lib None empty_disk ''/etc/systemd/nspawn/web.nspawn'' []) \<and>
   fs_out (EnsureUnit boot_lib None empty_disk ''/etc/systemd/nspawn/web.nspawn'' []) = empty_disk"
  using EnsureUnit_empty_desired[of
      "empty_disk\<lparr>files := [''/etc/systemd/nspawn/web.nspawn'' \<mapsto> ''[Exec]\<newline>Boot=yes\<newline>'']\<rparr>"
      "''/etc/systemd/nspawn/web.nspawn''" "''[Exec]\<newline>Boot=yes\<newline>''" boot_lib "[opt_boot]" None]
    EnsureUnit_empty_desired[of empty_disk "''/etc/systemd/nspawn/web.nspawn''" "[]" boot_lib "[]" None]
  by (simp add: Let_def)

text \<open>
  Claim C4. When the diff of the sorted desired list against the file's options has
  nothing to add and nothing to remove, \<^const>\<open>EnsureUnit\<close> reports no change, returns
  no error and leaves the file system exactly as it was; and \<^const>\<open>ReadUnit\<close> on a
  path with no file returns the empty list, not an error.
\<close>

theorem EnsureUnit_no_difference:
  "(ReadUnit l fs file_path True = Inr cur \<and>
    SliceDiffFunc (SortFunc in_opts CompareOptions) cur CompareOptions = ([], keep, []) \<longrightarrow>
      (let r = EnsureUnit l log fs file_path in_opts in
       \<not> changed r \<and> err r = None \<and> fs_out r = fs)) \<and>
   (\<not> fails fs Stat file_path \<and> files fs file_path = None \<longrightarrow>
      ReadUnit l fs file_path srt = Inr [])"
  by (auto simp: EnsureUnit_def ReadUnit_missing Let_def)

theorem EnsureUnit_no_difference_witness:
  "ReadUnit boot_lib
      (empty_disk\<lparr>files := [''/etc/systemd/nspawn/web.nspawn'' \<mapsto> ''[Exec]\<newline>Boot=yes\<newline>'']\<rparr>)
      ''/etc/systemd/nspawn/web.nspawn'' True = Inr [opt_boot] \<and>
   SliceDiffFunc (SortFunc [opt_boot] CompareOptions) [opt_boot] CompareOptions = ([], [opt_boot], []) \<and>
   \<not> changed (EnsureUnit boot_lib None
      (empty_disk\<lparr>files := [''/etc/systemd/nspawn/web.nspawn'' \<mapsto> ''[Exec]\<newline>Boot=yes\<newline>'']\<rparr>)
      ''/etc/systemd/nspawn/web.nspawn'' [opt_boot]) \<and>
   fs_out (EnsureUnit boot_lib None
      (empty_disk\<lparr>files := [''/etc/systemd/nspawn/web.nspawn'' \<mapsto> ''[Exec]\<newline>Boot=yes\<newline>'']\<rparr>)
      ''/etc/systemd/nspawn/web.nspawn'' [opt_boot]) =
     empty_disk\<lparr>files := [''/etc/systemd/nspawn/web.nspawn'' \<mapsto> ''[Exec]\<newline>Boot=yes\<newline>'']\<rparr> \<and>
   files empty_disk ''/etc/systemd/nspawn/web.nspawn'' = None \<and>
   ReadUnit boot_lib empty_disk ''/etc/systemd/nspawn/web.nspawn'' True = Inr []"
proof -
  let ?p = "''/etc/systemd/nspawn/web.nspawn''"
  let ?fs = "empty_disk\<lparr>files := [?p \<mapsto> ''[Exec]\<newline>Boot=yes\<newline>'']\<rparr>"
  have s: "SortFunc [opt_boot] CompareOptions = [opt_boot]"
    by (simp add: SortFunc_def)
  have rd: "ReadUnit boot_lib ?fs ?p True = Inr [opt_boot]"
    by (simp add: ReadUnit_present s)
  have d: "SliceDiffFunc (SortFunc [opt_boot] CompareOptions) [opt_boot] CompareOptions = ([], [opt_boot], [])"
    by (simp add: s SliceDiffFunc_def CompareOptions_def cmp_Compare_def)
  show ?thesis
    using EnsureUnit_no_difference[of boot_lib ?fs ?p "[opt_boot]" "[opt_boot]" "[opt_boot]" None]
      EnsureUnit_no_difference[of boot_lib empty_disk ?p "[]" "[]" "[]" None True] rd d
    by (simp add: Let_def)
qed

section \<open>Theorems about package machineutil\<close>

subsection \<open>The registry of machines\<close>



subsection \<open>Cloning a template\<close>

lemma object_Call_trace:
  "object_Call c obj member arguments = (r, c') \<Longrightarrow>
   trace (conn c') = trace (conn c) @ [Call (dest obj) (path obj) member arguments] \<and>
   machined c' = machined c \<and> systemd c' = systemd c"
  by (auto simp: object_Call_def bus_Call_def Let_def)

lemma GetImage_trace:
  "GetImage c name = (r, c') \<Longrightarrow>
   trace (conn c') = trace (conn c) @
     [Call (dest (machined c)) (path (machined c)) (machinedDbusInterface @ ''.GetImage'') [DString name]] \<and>
   machined c' = machined c"
  by (auto simp: GetImage_def split: prod.splits sum.splits dest!: object_Call_trace)

lemma GetMachineFromImage_conn:
  "GetMachineFromImage c img = (r, c') \<Longrightarrow> conn c' = conn c \<and> machined c' = machined c"
  by (auto simp: GetMachineFromImage_def AddMachine_def Let_def split: option.splits)

lemma GetMachineFromImage_Inr: "\<exists>p. fst (GetMachineFromImage c img) = Inr p"
  by (auto simp: GetMachineFromImage_def AddMachine_def Let_def split: option.splits)

lemma GetMachine_trace:
  "GetMachine c name = (r, c') \<Longrightarrow>
   trace (conn c') = trace (conn c) @
     [Call (dest (machined c)) (path (machined c)) (machinedDbusInterface @ ''.GetImage'') [DString name]]"
  by (auto simp: GetMachine_def Let_def split: prod.splits sum.splits option.splits if_splits
      dest!: GetImage_trace GetMachineFromImage_conn)

text \<open>
  Claim C6, as amended. When the lookup of the target name succeeds, \<^const>\<open>Clone\<close>
  (which \<^const>\<open>Template_Create\<close> calls with the template's image name) returns the
  registered machine together with the error \<^const>\<open>ErrAlreadyExists\<close>, and the lookup
  is the only call it makes on the bus: no clone is requested. When the lookup fails, for
  whatever reason, the next call is the request to clone the source image under the
  target name.
\<close>

theorem Clone_existing_image:
  "(GetImage c dst = ((img, None), c1) \<longrightarrow>
      (\<exists>p. fst (GetMachineFromImage c1 img) = Inr p \<and>
           Clone c src dst = ((Some p, Some ErrAlreadyExists), snd (GetMachineFromImage c1 img)) \<and>
           trace (conn (snd (Clone c src dst))) = trace (conn c) @
             [Call (dest (machined c)) (path (machined c)) (machinedDbusInterface @ ''.GetImage'')
                [DString dst]])) \<and>
   (GetImage c dst = ((img, Some e), c1) \<longrightarrow>
      (\<exists>rest. trace (conn (snd (Clone c src dst))) = trace (conn c) @
             [Call (dest (machined c)) (path (machined c)) (machinedDbusInterface @ ''.GetImage'')
                [DString dst],
              Call (dest (machined c)) (path (machined c)) (machinedDbusInterface @ ''.CloneImage'')
                [DString src, DString dst, DBool False]] @ rest)) \<and>
   Template_Create c t dst = Clone c (Template_Image t) dst"
proof (intro conjI impI)
  assume g: "GetImage c dst = ((img, None), c1)"
  obtain p where p: "fst (GetMachineFromImage c1 img) = Inr p"
    using GetMachineFromImage_Inr by blast
  obtain c2 where c2: "GetMachineFromImage c1 img = (Inr p, c2)"
    using p by (metis fst_conv surj_pair)
  have cl: "Clone c src dst = ((Some p, Some ErrAlreadyExists), c2)"
    using g c2 by (simp add: Clone_def)
  have "trace (conn c2) = trace (conn c) @
      [Call (dest (machined c)) (path (machined c)) (machinedDbusInterface @ ''.GetImage'') [DString dst]]"
    using GetImage_trace[OF g] GetMachineFromImage_conn[OF c2] by simp
  then show "\<exists>p. fst (GetMachineFromImage c1 img) = Inr p \<and>
           Clone c src dst = ((Some p, Some ErrAlreadyExists), snd (GetMachineFromImage c1 img)) \<and>
           trace (conn (snd (Clone c src dst))) = trace (conn c) @
             [Call (dest (machined c)) (path (machined c)) (machinedDbusInterface @ ''.GetImage'')
                [DString dst]]"
    using p cl c2 by auto
next
  assume g: "GetImage c dst = ((img, Some e), c1)"
  note t1 = GetImage_trace[OF g]
  obtain r c2 where oc: "object_Call c1 (machined c1) (machinedDbusInterface @ ''.CloneImage'')
                  [DString src, DString dst, DBool False] = (r, c2)"
    by (metis surj_pair)
  note t2 = object_Call_trace[OF oc]
  show "\<exists>rest. trace (conn (snd (Clone c src dst))) = trace (conn c) @
             [Call (dest (machined c)) (path (machined c)) (machinedDbusInterface @ ''.GetImage'')
                [DString dst],
              Call (dest (machined c)) (path (machined c)) (machinedDbusInterface @ ''.CloneImage'')
                [DString src, DString dst, DBool False]] @ rest"
  proof (cases r)
    case (Inl msg)
    then have "Clone c src dst = ((None, Some (ErrDBus msg)), c2)"
      using g oc by (simp add: Clone_def)
    then show ?thesis using t1 t2 by simp
  next
    case (Inr body)
    obtain r3 c3 where gm: "GetMachine c2 dst = (r3, c3)" by (metis surj_pair)
    have "snd (Clone c src dst) = c3"
      using g oc Inr gm by (auto simp: Clone_def split: sum.splits)
    then show ?thesis using t1 t2 GetMachine_trace[OF gm] by simp
  qed
next
  show "Template_Create c t dst = Clone c (Template_Image t) dst"
    by (simp add: Template_Create_def)
qed

text \<open>
  Claim C6 as stated fails: for an image that exists, the machine comes back with an
  error, the sentinel that tells the caller that nothing was created.
\<close>

theorem Clone_without_error_counterexample:
  "fst (GetImage (manager_on path_bus) ''web'') = (web_image, None) \<and>
   fst (Template_Create (manager_on path_bus) base_v1 ''web'') = (Some 0, Some ErrAlreadyExists) \<and>
   snd (fst (Template_Create (manager_on path_bus) base_v1 ''web'')) \<noteq> None"
  by (simp add: Template_Create_def Clone_def GetImage_def object_Call_def bus_Call_def
      Store_ObjectPath_def GetMachineFromImage_def AddMachine_def conn_Object_def)

theorem Clone_existing_image_witness:
  "GetImage (manager_on path_bus) ''web'' =
     ((web_image, None),
      (manager_on path_bus)\<lparr>conn := \<lparr>trace =
         [Call machinedDbusService machinedDbusPath ''org.freedesktop.machine1.Manager.GetImage''
            [DString ''web'']], respond = path_bus\<rparr>\<rparr>) \<and>
   fst (Clone (manager_on path_bus) ''base-template_1'' ''web'') = (Some 0, Some ErrAlreadyExists) \<and>
   trace (conn (snd (Clone (manager_on path_bus) ''base-template_1'' ''web''))) =
     [Call machinedDbusService machinedDbusPath ''org.freedesktop.machine1.Manager.GetImage''
        [DString ''web'']] \<and>
   snd (fst (GetImage (manager_on failing_bus) ''web'')) = Some (ErrDBus ''No image web known'') \<and>
   trace (conn (snd (Clone (manager_on failing_bus) ''base-template_1'' ''web''))) =
     [Call machinedDbusService machinedDbusPath ''org.freedesktop.machine1.Manager.GetImage''
        [DString ''web''],
      Call machinedDbusService machinedDbusPath ''org.freedesktop.machine1.Manager.CloneImage''
        [DString ''base-template_1'', DString ''web'', DBool False]]"
proof -
  let ?c1 = "(manager_on path_bus)\<lparr>conn := \<lparr>trace =
         [Call machinedDbusService machinedDbusPath ''org.freedesktop.machine1.Manager.GetImage''
            [DString ''web'']], respond = path_bus\<rparr>\<rparr>"
  have g: "GetImage (manager_on path_bus) ''web'' = ((web_image, None), ?c1)"
    by (simp add: GetImage_def object_Call_def bus_Call_def Store_ObjectPath_def conn_Object_def)
  have m: "fst (GetMachineFromImage ?c1 web_image) = Inr 0"
    by (simp add: GetMachineFromImage_def AddMachine_def)
  have first: "fst (Clone (manager_on path_bus) ''base-template_1'' ''web'') = (Some 0, Some ErrAlreadyExists) \<and>
     trace (conn (snd (Clone (manager_on path_bus) ''base-template_1'' ''web''))) =
     [Call machinedDbusService machinedDbusPath ''org.freedesktop.machine1.Manager.GetImage''
        [DString ''web'']]"
  proof -
    from Clone_existing_image[where c = "manager_on path_bus" and dst = "''web''" and img = web_image
        and ?c1.0 = ?c1 and src = "''base-template_1''" and t = base_v1, THEN conjunct1, rule_format, OF g]
    obtain p where p: "fst (GetMachineFromImage ?c1 web_image) = Inr p"
      and cl: "Clone (manager_on path_bus) ''base-template_1'' ''web'' =
         ((Some p, Some ErrAlreadyExists), snd (GetMachineFromImage ?c1 web_image))"
      and tr: "trace (conn (snd (Clone (manager_on path_bus) ''base-template_1'' ''web''))) =
         trace (conn (manager_on path_bus)) @
         [Call (dest (machined (manager_on path_bus))) (path (machined (manager_on path_bus)))
            (machinedDbusInterface @ ''.GetImage'') [DString ''web'']]"
      by blast
    have "p = 0" using p m by simp
    then show ?thesis using cl tr by (simp add: conn_Object_def)
  qed
  have g2: "GetImage (manager_on failing_bus) ''web'' =
     ((\<lparr>Image.Name = ''web'', Path = []\<rparr>, Some (ErrDBus ''No image web known'')),
      (manager_on failing_bus)\<lparr>conn := \<lparr>trace =
         [Call machinedDbusService machinedDbusPath ''org.freedesktop.machine1.Manager.GetImage''
            [DString ''web'']], respond = failing_bus\<rparr>\<rparr>)"
    by (simp add: GetImage_def object_Call_def bus_Call_def Store_ObjectPath_def conn_Object_def)
  have second: "trace (conn (snd (Clone (manager_on failing_bus) ''base-template_1'' ''web''))) =
     [Call machinedDbusService machinedDbusPath ''org.freedesktop.machine1.Manager.GetImage''
        [DString ''web''],
      Call machinedDbusService machinedDbusPath ''org.freedesktop.machine1.Manager.CloneImage''
        [DString ''base-template_1'', DString ''web'', DBool False]]"
    using g2 by (simp add: Clone_def object_Call_def bus_Call_def conn_Object_def)
  show ?thesis using g first g2 second by simp
qed

subsection \<open>Starting and stopping a machine\<close>

lemma Machine_Status_trace:
  "Machine_Status m c = (r, c') \<Longrightarrow>
   trace (conn c') = trace (conn c) @
     [Call (dest (Machine.object m)) (path (Machine.object m)) ''org.freedesktop.DBus.Properties.Get''
        [DString machinedDbusMachineInterface, DString ''State'']] \<and>
   systemd c' = systemd c"
  by (auto simp: Machine_Status_def split: prod.splits dest!: object_Call_trace)

lemma Running_trace:
  "Running m c = (r, c') \<Longrightarrow> \<exists>rest. trace (conn c') = trace (conn c) @ rest"
  by (auto simp: Running_def split: prod.splits sum.splits dest!: Machine_Status_trace)

lemma Job_Wait_trace:
  "\<exists>rest. trace (conn (snd (Job_Wait fuel j c))) = trace (conn c) @ rest"
proof (induction fuel j c rule: Job_Wait.induct)
  case (1 j c)
  then show ?case by simp
next
  case (2 fuel j c)
  obtain r c' where oc: "object_Call c (Job.object j) ''org.freedesktop.DBus.Properties.Get''
             [DString ''org.freedesktop.systemd1.Job'', DString ''State''] = (r, c')"
    by (metis surj_pair)
  show ?case
  proof (cases "Store_string r")
    case (Inl e)
    then show ?thesis using oc object_Call_trace[OF oc] by simp
  next
    case (Inr state)
    then show ?thesis
      using oc object_Call_trace[OF oc] "2.IH"[OF oc[symmetric] Inr] by auto
  qed
qed

lemma Start_poll_trace:
  "\<exists>rest. trace (conn (snd (Start_poll fuel m c))) = trace (conn c) @ rest"
proof (induction fuel m c rule: Start_poll.induct)
  case (1 m c)
  then show ?case by simp
next
  case (2 fuel m c)
  obtain r c' where st: "Machine_Status m c = (r, c')" by (metis surj_pair)
  show ?case
  proof (cases r)
    case (Inl e)
    then show ?thesis using st Machine_Status_trace[OF st] by simp
  next
    case (Inr result)
    then show ?thesis
      using st Machine_Status_trace[OF st] "2.IH"[OF st[symmetric] Inr] by auto
  qed
qed

text \<open>
  Claim C10. When the query of the machine's state fails, \<^const>\<open>Running\<close> is false, so
  \<^const>\<open>Machine_Stop\<close> returns success at once, the query being the only call it has
  made, while \<^const>\<open>Machine_Start\<close> goes on: its next call on the bus asks systemd to
  start the machine's unit.
\<close>

theorem Running_swallows_error:
  "Machine_Status m c = (Inl e, c1) \<longrightarrow>
     Running m c = (False, c1) \<and>
     Machine_Stop fuel m c = (Some None, c1) \<and>
     trace (conn c1) = trace (conn c) @
       [Call (dest (Machine.object m)) (path (Machine.object m)) ''org.freedesktop.DBus.Properties.Get''
          [DString machinedDbusMachineInterface, DString ''State'']] \<and>
     (\<exists>rest. trace (conn (snd (Machine_Start fuel m c))) = trace (conn c1) @
        [Call (dest (systemd c)) (path (systemd c)) (systemdDbusInterface @ ''.StartUnit'')
           [DString (''systemd-nspawn@'' @ Machine.Name m @ ''.service''), DString ''fail'']] @ rest)"
proof
  assume st: "Machine_Status m c = (Inl e, c1)"
  have run: "Running m c = (False, c1)"
    using st by (simp add: Running_def)
  have stop: "Machine_Stop fuel m c = (Some None, c1)"
    using run by (simp add: Machine_Stop_def)
  note t1 = Machine_Status_trace[OF st]
  let ?unit = "''systemd-nspawn@'' @ Machine.Name m @ ''.service''"
  let ?start = "Call (dest (systemd c)) (path (systemd c)) (systemdDbusInterface @ ''.StartUnit'')
           [DString ?unit, DString ''fail'']"
  obtain r c2 where oc: "object_Call c1 (systemd c1) (systemdDbusInterface @ ''.StartUnit'')
             [DString ?unit, DString ''fail''] = (r, c2)"
    by (metis surj_pair)
  have t2: "trace (conn c2) = trace (conn c1) @ [?start]"
    using object_Call_trace[OF oc] t1 by simp
  have "\<exists>rest. trace (conn (snd (Machine_Start fuel m c))) = trace (conn c1) @ [?start] @ rest"
  proof (cases "Store_ObjectPath r")
    case (Inl e')
    then have "Machine_Start fuel m c = (Some (Some e'), c2)"
      using run oc by (simp add: Machine_Start_def machineUtil_Start_def)
    then show ?thesis using t2 by simp
  next
    case (Inr retval)
    let ?job = "\<lparr>Job.object = conn_Object systemdDbusService retval\<rparr>"
    have ms: "Machine_Start fuel m c =
        (case Job_Wait fuel ?job c2 of
           (None, c3) \<Rightarrow> (None, c3)
         | (Some (Some e), c3) \<Rightarrow> (Some (Some e), c3)
         | (Some None, c3) \<Rightarrow> Start_poll fuel m c3)"
      using run oc Inr by (simp add: Machine_Start_def machineUtil_Start_def)
    obtain w c3 where jw: "Job_Wait fuel ?job c2 = (w, c3)" by (metis surj_pair)
    obtain rest3 where t3: "trace (conn c3) = trace (conn c2) @ rest3"
      using Job_Wait_trace[of fuel ?job c2] jw by auto
    show ?thesis
    proof (cases "w = Some None")
      case True
      then have "Machine_Start fuel m c = Start_poll fuel m c3"
        using ms jw by simp
      then show ?thesis
        using Start_poll_trace[of fuel m c3] t3 t2 by auto
    next
      case False
      then have "snd (Machine_Start fuel m c) = c3"
        using ms jw by (cases w) (auto split: option.splits)
      then show ?thesis using t3 t2 by simp
    qed
  qed
  then show "Running m c = (False, c1) \<and>
     Machine_Stop fuel m c = (Some None, c1) \<and>
     trace (conn c1) = trace (conn c) @
       [Call (dest (Machine.object m)) (path (Machine.object m)) ''org.freedesktop.DBus.Properties.Get''
          [DString machinedDbusMachineInterface, DString ''State'']] \<and>
     (\<exists>rest. trace (conn (snd (Machine_Start fuel m c))) = trace (conn c1) @
        [Call (dest (systemd c)) (path (systemd c)) (systemdDbusInterface @ ''.StartUnit'')
           [DString (''systemd-nspawn@'' @ Machine.Name m @ ''.service''), DString ''fail'']] @ rest)"
    using run stop t1 by simp
qed

theorem Running_swallows_error_witness:
  "fst (Machine_Status web_machine (manager_on failing_bus)) = Inl (ErrDBus ''No image web known'') \<and>
   fst (Running web_machine (manager_on failing_bus)) = False \<and>
   Machine_Stop 3 web_machine (manager_on failing_bus) =
     (Some None, snd (Machine_Status web_machine (manager_on failing_bus))) \<and>
   trace (conn (snd (Machine_Stop 3 web_machine (manager_on failing_bus)))) =
     [Call machinedDbusService ''/org/freedesktop/machine1/machine/web''
        ''org.freedesktop.DBus.Properties.Get''
        [DString machinedDbusMachineInterface, DString ''State'']] \<and>
   trace (conn (snd (Machine_Start 3 web_machine (manager_on failing_bus)))) =
     [Call machinedDbusService ''/org/freedesktop/machine1/machine/web''
        ''org.freedesktop.DBus.Properties.Get''
        [DString machinedDbusMachineInterface, DString ''State''],
      Call systemdDbusService systemdDbusPath ''org.freedesktop.systemd1.Manager.StartUnit''
        [DString ''systemd-nspawn@web.service'', DString ''fail'']]"
proof -
  let ?c = "manager_on failing_bus"
  obtain c1 where st: "Machine_Status web_machine ?c = (Inl (ErrDBus ''No image web known''), c1)"
    by (simp add: Machine_Status_def object_Call_def bus_Call_def Store_string_def)
  from Running_swallows_error[where m = web_machine and c = ?c and ?c1.0 = c1 and fuel = 3,
      rule_format, OF st]
  have run: "Running web_machine ?c = (False, c1)"
    and stop: "Machine_Stop 3 web_machine ?c = (Some None, c1)"
    and tr: "trace (conn c1) = trace (conn ?c) @
       [Call (dest (Machine.object web_machine)) (path (Machine.object web_machine))
          ''org.freedesktop.DBus.Properties.Get''
          [DString machinedDbusMachineInterface, DString ''State'']]"
    by blast+
  have start: "trace (conn (snd (Machine_Start 3 web_machine ?c))) =
     [Call machinedDbusService ''/org/freedesktop/machine1/machine/web''
        ''org.freedesktop.DBus.Properties.Get''
        [DString machinedDbusMachineInterface, DString ''State''],
      Call systemdDbusService systemdDbusPath ''org.freedesktop.systemd1.Manager.StartUnit''
        [DString ''systemd-nspawn@web.service'', DString ''fail'']]"
    by (simp add: Machine_Start_def Running_def Machine_Status_def machineUtil_Start_def
        object_Call_def bus_Call_def Store_string_def Store_ObjectPath_def conn_Object_def)
  show ?thesis
    using st run stop tr start by (simp add: conn_Object_def)
qed

subsection \<open>Waiting for an address\<close>

lemma address_kept_iff:
  "address_kept a \<longleftrightarrow>
     IsValid a \<and> \<not> IsUnspecified a \<and> \<not> IsLoopback a \<and> \<not> IsLinkLocalUnicast a \<and>
     \<not> IsLinkLocalMulticast a \<and> \<not> IsInterfaceLocalMulticast a \<and> \<not> IsMulticast a"
  by (simp add: address_kept_def)

lemma WaitForAddress_polls:
  "(\<forall>i<k. \<exists>addrs. fst (Addresses m (after_polls i m c)) = Inr addrs \<and>
        filter address_kept addrs = []) \<Longrightarrow>
   fst (Addresses m (after_polls k m c)) = Inr addrs \<Longrightarrow>
   filter address_kept addrs \<noteq> [] \<Longrightarrow> k < fuel \<Longrightarrow>
   WaitForAddress fuel m c = (Some (Inr (filter address_kept addrs)), after_polls (Suc k) m c)"
proof (induction k arbitrary: c fuel)
  case 0
  then obtain f where f: "fuel = Suc f" by (cases fuel) auto
  obtain c' where "Addresses m c = (Inr addrs, c')"
    using "0.prems"(2) by (metis after_polls.simps(1) fst_conv surj_pair)
  then show ?case using "0.prems"(3) f by simp
next
  case (Suc k)
  then obtain f where f: "fuel = Suc f" and kf: "k < f" by (cases fuel) auto
  obtain addrs0 where a0: "fst (Addresses m c) = Inr addrs0" "filter address_kept addrs0 = []"
    using Suc.prems(1) by (metis after_polls.simps(1) zero_less_Suc)
  obtain c' where c': "Addresses m c = (Inr addrs0, c')"
    using a0(1) by (metis fst_conv surj_pair)
  have step: "WaitForAddress fuel m c = WaitForAddress f m c'"
    using f c' a0(2) by simp
  have sh: "after_polls (Suc i) m c = after_polls i m c'" for i
    using c' by simp
  have "\<forall>i<k. \<exists>addrs. fst (Addresses m (after_polls i m c')) = Inr addrs \<and>
        filter address_kept addrs = []"
    using Suc.prems(1) sh by (metis Suc_less_eq)
  moreover have "fst (Addresses m (after_polls k m c')) = Inr addrs"
    using Suc.prems(2) sh by simp
  ultimately have "WaitForAddress f m c' =
     (Some (Inr (filter address_kept addrs)), after_polls (Suc k) m c')"
    using Suc.IH Suc.prems(3) kf by blast
  then show ?case using step sh by simp
qed

lemmas netip_defs =
  netip_AddrFromSlice_def address_kept_def IsValid_def IsUnspecified_def IsLoopback_def
  IsLinkLocalUnicast_def IsLinkLocalMulticast_def IsInterfaceLocalMulticast_def IsMulticast_def
  Is4_def Is6_def Is4In6_def Unmap_def v4_def v6_def v6u16_def

text \<open>
  Claim C7. An address passes the \<^verbatim>\<open>switch\<close> of \<^const>\<open>WaitForAddress\<close> exactly when it
  is valid and is not unspecified, loopback, link-local unicast, link-local multicast,
  interface-local multicast or multicast. If the first \<open>k\<close> polls each return a list
  of which nothing passes and the next poll returns a list of which something does,
  \<^const>\<open>WaitForAddress\<close> (allowed more than \<open>k\<close> rounds) returns the addresses of
  that list that pass, having polled \<open>k + 1\<close> times. Of 127.0.0.1, fe80::1 and
  203.0.113.5 only 203.0.113.5 passes.
\<close>

theorem WaitForAddress_first_usable:
  "(address_kept a \<longleftrightarrow>
      IsValid a \<and> \<not> IsUnspecified a \<and> \<not> IsLoopback a \<and> \<not> IsLinkLocalUnicast a \<and>
      \<not> IsLinkLocalMulticast a \<and> \<not> IsInterfaceLocalMulticast a \<and> \<not> IsMulticast a) \<and>
   ((\<forall>i<k. \<exists>earlier. fst (Addresses m (after_polls i m c)) = Inr earlier \<and>
               filter address_kept earlier = []) \<and>
    fst (Addresses m (after_polls k m c)) = Inr addrs \<and>
    filter address_kept addrs \<noteq> [] \<and> k < fuel \<longrightarrow>
      WaitForAddress fuel m c =
        (Some (Inr (filter address_kept addrs)), after_polls (Suc k) m c)) \<and>
   filter address_kept [Addr4 loopback_bytes, Addr6 link_local_bytes, Addr4 public_bytes] =
     [Addr4 public_bytes]"
proof (intro conjI impI)
  show "address_kept a \<longleftrightarrow>
      IsValid a \<and> \<not> IsUnspecified a \<and> \<not> IsLoopback a \<and> \<not> IsLinkLocalUnicast a \<and>
      \<not> IsLinkLocalMulticast a \<and> \<not> IsInterfaceLocalMulticast a \<and> \<not> IsMulticast a"
    by (rule address_kept_iff)
next
  assume "(\<forall>i<k. \<exists>earlier. fst (Addresses m (after_polls i m c)) = Inr earlier \<and>
               filter address_kept earlier = []) \<and>
    fst (Addresses m (after_polls k m c)) = Inr addrs \<and>
    filter address_kept addrs \<noteq> [] \<and> k < fuel"
  then show "WaitForAddress fuel m c =
        (Some (Inr (filter address_kept addrs)), after_polls (Suc k) m c)"
    using WaitForAddress_polls[of k m c addrs fuel] by blast
next
  show "filter address_kept [Addr4 loopback_bytes, Addr6 link_local_bytes, Addr4 public_bytes] =
     [Addr4 public_bytes]"
    by (simp add: netip_defs)
qed

lemmas bus_defs = Addresses_def object_Call_def bus_Call_def Store_addresses_def Store_rows_def

theorem WaitForAddress_first_usable_witness:
  "fst (Addresses web_machine (manager_on late_bus)) = Inr [Addr4 loopback_bytes] \<and>
   filter address_kept [Addr4 loopback_bytes] = [] \<and>
   fst (Addresses web_machine (after_polls 1 web_machine (manager_on late_bus))) =
     Inr [Addr4 loopback_bytes, Addr6 link_local_bytes, Addr4 public_bytes] \<and>
   fst (WaitForAddress 5 web_machine (manager_on late_bus)) = Some (Inr [Addr4 public_bytes]) \<and>
   trace (conn (snd (WaitForAddress 5 web_machine (manager_on late_bus)))) =
     [Call machinedDbusService ''/org/freedesktop/machine1/machine/web''
        ''org.freedesktop.machine1.Machine.GetAddresses'' [],
      Call machinedDbusService ''/org/freedesktop/machine1/machine/web''
        ''org.freedesktop.machine1.Machine.GetAddresses'' []] \<and>
   fst (WaitForAddress 1 web_machine (manager_on scenario_bus)) = Some (Inr [Addr4 public_bytes])"
proof -
  let ?c = "manager_on late_bus"
  let ?three = "[Addr4 loopback_bytes, Addr6 link_local_bytes, Addr4 public_bytes]"
  have p0: "fst (Addresses web_machine ?c) = Inr [Addr4 loopback_bytes]"
    by (simp add: bus_defs netip_AddrFromSlice_def)
  have e0: "filter address_kept [Addr4 loopback_bytes] = []"
    by (simp add: netip_defs)
  have p1: "fst (Addresses web_machine (after_polls 1 web_machine ?c)) = Inr ?three"
    by (simp add: bus_defs netip_AddrFromSlice_def)
  have k3: "filter address_kept ?three = [Addr4 public_bytes]"
    by (simp add: netip_defs)
  have hyp: "\<forall>i<1. \<exists>earlier. fst (Addresses web_machine (after_polls i web_machine ?c)) = Inr earlier \<and>
               filter address_kept earlier = []"
    using p0 e0 by simp
  from WaitForAddress_first_usable[where k = 1 and m = web_machine and c = ?c and addrs = ?three
      and fuel = 5, THEN conjunct2, THEN conjunct1, rule_format] hyp p1 k3
  have w: "WaitForAddress 5 web_machine ?c =
      (Some (Inr [Addr4 public_bytes]), after_polls (Suc 1) web_machine ?c)"
    by simp
  have tr: "trace (conn (after_polls (Suc 1) web_machine ?c)) =
     [Call machinedDbusService ''/org/freedesktop/machine1/machine/web''
        ''org.freedesktop.machine1.Machine.GetAddresses'' [],
      Call machinedDbusService ''/org/freedesktop/machine1/machine/web''
        ''org.freedesktop.machine1.Machine.GetAddresses'' []]"
    by (simp add: bus_defs netip_AddrFromSlice_def conn_Object_def)
  have s: "fst (WaitForAddress 1 web_machine (manager_on scenario_bus)) = Some (Inr [Addr4 public_bytes])"
    by (simp add: bus_defs netip_defs)
  show ?thesis using p0 e0 p1 w tr s by simp
qed

subsection \<open>The template catalog\<close>

lemma Less_key: "TemplateVersions_Less a b \<longleftrightarrow> version_key a < version_key b"
  by (auto simp: TemplateVersions_Less_def version_key_def)

lemma Get_loop_None:
  "TemplateVersions_Get_loop ts n name = None \<longleftrightarrow> (\<forall>i<n. Template.Name (ts ! i) \<noteq> name)"
  by (induction n) (auto simp: Template_Get_def less_Suc_eq split: option.splits)

lemma Get_loop_Some:
  "TemplateVersions_Get_loop ts n name = Some t \<Longrightarrow>
   \<exists>i<n. t = ts ! i \<and> Template.Name t = name \<and> (\<forall>j. i < j \<and> j < n \<longrightarrow> Template.Name (ts ! j) \<noteq> name)"
proof (induction n)
  case 0
  then show ?case by simp
next
  case (Suc n)
  show ?case
  proof (cases "Template.Name (ts ! n) = name")
    case True
    then have "t = ts ! n" using Suc.prems by (simp add: Template_Get_def)
    then show ?thesis using True by auto
  next
    case False
    then have "TemplateVersions_Get_loop ts n name = Some t"
      using Suc.prems by (simp add: Template_Get_def)
    then obtain i where "i < n" "t = ts ! i" "Template.Name t = name"
      "\<forall>j. i < j \<and> j < n \<longrightarrow> Template.Name (ts ! j) \<noteq> name"
      using Suc.IH by blast
    then show ?thesis using False by (auto simp: less_Suc_eq intro!: exI[of _ i])
  qed
qed

lemma TemplateVersions_Get_None:
  "TemplateVersions_Get ts name = None \<longleftrightarrow> (\<forall>t\<in>set ts. Template.Name t \<noteq> name)"
  unfolding TemplateVersions_Get_def Get_loop_None
  by (metis in_set_conv_nth)

lemma TemplateVersions_Get_Some:
  assumes "TemplateVersions_Get ts name = Some t"
    and "sorted_wrt (\<lambda>a b. \<not> TemplateVersions_Less b a) ts"
  shows "t \<in> set ts \<and> Template.Name t = name \<and>
         (\<forall>u\<in>set ts. Template.Name u = name \<longrightarrow> Version u \<le> Version t)"
proof -
  obtain i where i: "i < length ts" "t = ts ! i" "Template.Name t = name"
    "\<forall>j. i < j \<and> j < length ts \<longrightarrow> Template.Name (ts ! j) \<noteq> name"
    using Get_loop_Some assms(1) unfolding TemplateVersions_Get_def by blast
  have "Version u \<le> Version t" if u: "u \<in> set ts" "Template.Name u = name" for u
  proof -
    obtain j where j: "j < length ts" "u = ts ! j" using u(1) by (auto simp: in_set_conv_nth)
    have "j \<le> i"
    proof (rule ccontr)
      assume "\<not> j \<le> i"
      then have "i < j \<and> j < length ts" using j(1) by simp
      then show False using i(4) j(2) u(2) by blast
    qed
    show ?thesis
    proof (cases "j = i")
      case True
      then show ?thesis using i j by simp
    next
      case False
      then have "j < i" using \<open>j \<le> i\<close> by simp
      then have "\<not> TemplateVersions_Less (ts ! i) (ts ! j)"
        using sorted_wrt_nth_less[OF assms(2) _ i(1), of j] by simp
      then show ?thesis
        using i j u(2) by (auto simp: TemplateVersions_Less_def split: if_splits)
    qed
  qed
  then show ?thesis using i by auto
qed

lemma Templates_Get_highest:
  assumes "catalog_sorted cat"
  shows "highest_named cat name (TemplateVersions_Get (map_index (Templates cat) name) name)"
proof (cases "Templates cat name")
  case None
  have "Template.Name t \<noteq> name" if "in_catalog cat t" for t
    using that assms None by (auto simp: in_catalog_def catalog_sorted_def)
  then show ?thesis
    using None by (simp add: map_index_def TemplateVersions_Get_def highest_named_def)
next
  case (Some ts)
  have srt: "sorted_wrt (\<lambda>a b. \<not> TemplateVersions_Less b a) ts"
    using assms Some by (simp add: catalog_sorted_def)
  have only: "u \<in> set ts" if "in_catalog cat u" "Template.Name u = name" for u
    using that assms Some by (auto simp: in_catalog_def catalog_sorted_def)
  have mem: "in_catalog cat t" if "t \<in> set ts" for t
    using that Some by (auto simp: in_catalog_def)
  show ?thesis
  proof (cases "TemplateVersions_Get ts name")
    case None
    then have "\<forall>t\<in>set ts. Template.Name t \<noteq> name"
      by (simp add: TemplateVersions_Get_None)
    then have "\<forall>t. in_catalog cat t \<longrightarrow> Template.Name t \<noteq> name"
      using only by blast
    then show ?thesis
      using None Some by (simp add: map_index_def highest_named_def)
  next
    case found: (Some t)
    from TemplateVersions_Get_Some[OF found srt]
    have "in_catalog cat t \<and> Template.Name t = name \<and>
          (\<forall>u. in_catalog cat u \<and> Template.Name u = name \<longrightarrow> Version u \<le> Version t)"
      using only mem by blast
    then show ?thesis
      using found Some by (simp add: map_index_def highest_named_def)
  qed
qed

text \<open>
  Claim C5. In a catalog whose groups are filed by name and sorted ascending by
  (name, version), \<^const>\<open>Templates_Get\<close> with the empty name returns the highest
  version of the default name, and with a name returns the highest version of that name;
  in both cases the result is \<^verbatim>\<open>nil\<close> exactly when the catalog has no template of
  the name, and never a template of another name.
\<close>

theorem Templates_Get_resolves:
  "catalog_sorted cat \<longrightarrow>
     highest_named cat (Default cat) (Templates_Get cat []) \<and>
     (name \<noteq> [] \<longrightarrow> highest_named cat name (Templates_Get cat name))"
  using Templates_Get_highest by (simp add: Templates_Get_def Let_def)

theorem Templates_Get_resolves_witness:
  "catalog_sorted base_catalog \<and>
   Templates_Get base_catalog [] = Some base_v2 \<and>
   Templates_Get base_catalog ''base'' = Some base_v2 \<and>
   Templates_Get base_catalog ''other'' = None \<and>
   highest_named base_catalog ''base'' (Some base_v2) \<and>
   highest_named base_catalog ''other'' None"
proof -
  have cs: "catalog_sorted base_catalog"
    by (auto simp: catalog_sorted_def TemplateVersions_Less_def)
  have e: "Templates_Get base_catalog [] = Some base_v2"
    "Templates_Get base_catalog ''base'' = Some base_v2"
    "Templates_Get base_catalog ''other'' = None"
    by (simp_all add: Templates_Get_def map_index_def TemplateVersions_Get_def Template_Get_def
        numeral_2_eq_2)
  from Templates_Get_resolves[where cat = base_catalog and name = "''base''", rule_format, OF cs]
    Templates_Get_resolves[where cat = base_catalog and name = "''other''", rule_format, OF cs]
  show ?thesis using cs e by simp
qed

subsection \<open>Listing the templates\<close>

lemma ListTemplates_step_cases:
  "ListTemplates_step (retval, c) img =
     (case template_name_version img of
        None \<Rightarrow> (retval, c)
      | Some (name, ver) \<Rightarrow>
          (case templates c (Image.Name img) of
             Some tmpl \<Rightarrow> (retval(name \<mapsto> map_index retval name @ [tmpl]), c)
           | None \<Rightarrow>
               (retval(name \<mapsto> map_index retval name @
                  [\<lparr>Template.Name = name, Version = ver,
                    object = conn_Object machinedDbusService (Path img)\<rparr>]),
                c\<lparr>templates := (templates c)(Image.Name img \<mapsto>
                  \<lparr>Template.Name = name, Version = ver,
                    object = conn_Object machinedDbusService (Path img)\<rparr>)\<rparr>)))"
  by (auto simp: ListTemplates_step_def template_name_version_def Let_def
      split: prod.splits sum.splits option.splits)

lemma ListTemplates_step_skip:
  "template_name_version img = None \<Longrightarrow> ListTemplates_step st img = st"
  by (cases st) (simp add: ListTemplates_step_cases)

lemma ListTemplates_skips:
  "foldl ListTemplates_step st images =
   foldl ListTemplates_step st (filter (\<lambda>img. template_name_version img \<noteq> None) images)"
proof (induction images arbitrary: st)
  case Nil
  then show ?case by simp
next
  case (Cons img images)
  show ?case
  proof (cases "template_name_version img")
    case None
    then show ?thesis using Cons.IH[of st] by (simp add: ListTemplates_step_skip)
  next
    case (Some nv)
    then show ?thesis using Cons.IH[of "ListTemplates_step st img"] by simp
  qed
qed

lemma template_name_version_cong:
  "Image.Name img' = Image.Name img \<Longrightarrow> template_name_version img' = template_name_version img"
  by (simp add: template_name_version_def)

lemma loop_invI:
  assumes "\<And>name ts t. retval name = Some ts \<Longrightarrow> t \<in> set ts \<Longrightarrow>
             \<exists>img\<in>set xs. \<exists>ver. template_name_version img = Some (name, ver) \<and>
               templates c' (Image.Name img) = Some t"
    and "\<And>k. templates c1 k \<noteq> None \<Longrightarrow> templates c' k = templates c1 k"
    and "\<And>k t. templates c' k = Some t \<Longrightarrow> templates c1 k = None \<Longrightarrow>
             \<exists>img\<in>set xs. Image.Name img = k \<and>
               template_name_version img = Some (Template.Name t, Version t)"
    and "\<And>name. retval name \<noteq> Some []"
    and "\<And>name. list_all2 (\<lambda>img t. templates c' (Image.Name img) = Some t)
           (filter (\<lambda>img. template_named img name) xs) (map_index retval name)"
  shows "loop_inv c1 xs (retval, c')"
  unfolding loop_inv_def prod.case
proof (intro conjI allI impI)
  fix name ts t
  assume "retval name = Some ts \<and> t \<in> set ts"
  then show "\<exists>img\<in>set xs. \<exists>ver. template_name_version img = Some (name, ver) \<and>
               templates c' (Image.Name img) = Some t"
    using assms(1)[of name ts t] by simp
next
  fix k
  assume "templates c1 k \<noteq> None"
  then show "templates c' k = templates c1 k" by (rule assms(2))
next
  fix k t
  assume "templates c' k = Some t \<and> templates c1 k = None"
  then show "\<exists>img\<in>set xs. Image.Name img = k \<and>
               template_name_version img = Some (Template.Name t, Version t)"
    using assms(3)[of k t] by simp
next
  fix name
  show "retval name \<noteq> Some []" by (rule assms(4))
next
  fix name
  show "list_all2 (\<lambda>img t. templates c' (Image.Name img) = Some t)
           (filter (\<lambda>img. template_named img name) xs) (map_index retval name)"
    by (rule assms(5))
qed

lemma loop_invD:
  assumes "loop_inv c1 xs (retval, c')"
  shows "retval name = Some ts \<Longrightarrow> t \<in> set ts \<Longrightarrow>
             \<exists>img\<in>set xs. \<exists>ver. template_name_version img = Some (name, ver) \<and>
               templates c' (Image.Name img) = Some t"
    and "templates c1 k \<noteq> None \<Longrightarrow> templates c' k = templates c1 k"
    and "templates c' k = Some t \<Longrightarrow> templates c1 k = None \<Longrightarrow>
             \<exists>img\<in>set xs. Image.Name img = k \<and>
               template_name_version img = Some (Template.Name t, Version t)"
    and "retval name \<noteq> Some []"
    and "list_all2 (\<lambda>img t. templates c' (Image.Name img) = Some t)
           (filter (\<lambda>img. template_named img name) xs) (map_index retval name)"
proof -
  note inv = assms[unfolded loop_inv_def prod.case]
  note a = inv[THEN conjunct1]
  note b = inv[THEN conjunct2, THEN conjunct1]
  note c = inv[THEN conjunct2, THEN conjunct2, THEN conjunct1]
  note d = inv[THEN conjunct2, THEN conjunct2, THEN conjunct2, THEN conjunct1]
  note e = inv[THEN conjunct2, THEN conjunct2, THEN conjunct2, THEN conjunct2]
  show "retval name = Some ts \<Longrightarrow> t \<in> set ts \<Longrightarrow>
             \<exists>img\<in>set xs. \<exists>ver. template_name_version img = Some (name, ver) \<and>
               templates c' (Image.Name img) = Some t"
    using a[rule_format, of name ts t] by simp
  show "templates c1 k \<noteq> None \<Longrightarrow> templates c' k = templates c1 k"
    using b[rule_format, of k] by simp
  show "templates c' k = Some t \<Longrightarrow> templates c1 k = None \<Longrightarrow>
             \<exists>img\<in>set xs. Image.Name img = k \<and>
               template_name_version img = Some (Template.Name t, Version t)"
    using c[rule_format, of k t] by simp
  show "retval name \<noteq> Some []"
    using d[rule_format, of name] .
  show "list_all2 (\<lambda>img t. templates c' (Image.Name img) = Some t)
           (filter (\<lambda>img. template_named img name) xs) (map_index retval name)"
    using e[rule_format, of name] .
qed

lemma loop_inv_step:
  assumes "loop_inv c1 xs st"
  shows "loop_inv c1 (xs @ [img]) (ListTemplates_step st img)"
proof -
  obtain retval c' where st: "st = (retval, c')" by (cases st)
  note inv = assms[unfolded st]
  note i1 = loop_invD(1)[OF inv] and i2 = loop_invD(2)[OF inv] and i3 = loop_invD(3)[OF inv]
    and i4 = loop_invD(4)[OF inv] and i5 = loop_invD(5)[OF inv]
  show ?thesis
  proof (cases "template_name_version img")
    case None
    then have step: "ListTemplates_step st img = (retval, c')"
      by (simp add: st ListTemplates_step_cases)
    have no: "\<not> template_named img name" for name
      using None by (simp add: template_named_def)
    show ?thesis
      unfolding step
    proof (rule loop_invI)
      fix name ts t
      assume "retval name = Some ts" "t \<in> set ts"
      from i1[OF this]
      show "\<exists>i\<in>set (xs @ [img]). \<exists>ver. template_name_version i = Some (name, ver) \<and>
               templates c' (Image.Name i) = Some t"
        by auto
    next
      fix k
      assume "templates c1 k \<noteq> None"
      then show "templates c' k = templates c1 k" by (rule i2)
    next
      fix k t
      assume "templates c' k = Some t" "templates c1 k = None"
      from i3[OF this]
      show "\<exists>i\<in>set (xs @ [img]). Image.Name i = k \<and>
               template_name_version i = Some (Template.Name t, Version t)"
        by auto
    next
      fix name
      show "retval name \<noteq> Some []" by (rule i4)
    next
      fix name
      show "list_all2 (\<lambda>i t. templates c' (Image.Name i) = Some t)
           (filter (\<lambda>i. template_named i name) (xs @ [img])) (map_index retval name)"
        using i5[of name] no by simp
    qed
  next
    case (Some nv)
    obtain name ver where nv: "template_name_version img = Some (name, ver)"
      using Some by (cases nv) simp
    define tmpl where "tmpl = (case templates c' (Image.Name img) of
        Some cached \<Rightarrow> cached
      | None \<Rightarrow> \<lparr>Template.Name = name, Version = ver,
                   object = conn_Object machinedDbusService (Path img)\<rparr>)"
    define c'' where "c'' = (case templates c' (Image.Name img) of
        Some cached \<Rightarrow> c'
      | None \<Rightarrow> c'\<lparr>templates := (templates c')(Image.Name img \<mapsto> tmpl)\<rparr>)"
    define retval' where "retval' = retval(name \<mapsto> map_index retval name @ [tmpl])"
    have step: "ListTemplates_step st img = (retval', c'')"
      using nv
      by (simp add: st ListTemplates_step_cases tmpl_def c''_def retval'_def split: option.splits)
    have here: "templates c'' (Image.Name img) = Some tmpl"
      by (simp add: c''_def tmpl_def split: option.splits)
    have keep: "templates c'' k = Some t" if "templates c' k = Some t" for k t
      using that by (auto simp: c''_def split: option.splits)
    have new: "k = Image.Name img \<and> t = tmpl \<and> templates c' (Image.Name img) = None \<and>
        Template.Name t = name \<and> Version t = ver"
      if "templates c'' k = Some t" "templates c' k \<noteq> Some t" for k t
      using that by (auto simp: c''_def tmpl_def split: option.splits if_splits)
    have named: "template_named img n \<longleftrightarrow> n = name" for n
      using nv by (auto simp: template_named_def)
    have old5: "list_all2 (\<lambda>i t. templates c'' (Image.Name i) = Some t)
           (filter (\<lambda>i. template_named i n) xs) (map_index retval n)" for n
      by (rule list_all2_mono[OF i5[of n]]) (rule keep)
    show ?thesis
      unfolding step
    proof (rule loop_invI)
      fix n ts t
      assume grp: "retval' n = Some ts" and t: "t \<in> set ts"
      show "\<exists>i\<in>set (xs @ [img]). \<exists>v. template_name_version i = Some (n, v) \<and>
              templates c'' (Image.Name i) = Some t"
      proof (cases "n = name \<and> t = tmpl")
        case True
        then show ?thesis using nv here by auto
      next
        case False
        then have "\<exists>ts0. retval n = Some ts0 \<and> t \<in> set ts0"
          using grp t by (auto simp: retval'_def map_index_def split: if_splits option.splits)
        then obtain ts0 where "retval n = Some ts0" "t \<in> set ts0" by blast
        from i1[OF this] obtain i v where "i \<in> set xs" "template_name_version i = Some (n, v)"
          "templates c' (Image.Name i) = Some t"
          by blast
        then show ?thesis using keep by auto
      qed
    next
      fix k
      assume a: "templates c1 k \<noteq> None"
      have "templates c' k = templates c1 k" using i2[OF a] .
      then show "templates c'' k = templates c1 k" using a keep by (metis not_None_eq)
    next
      fix k t
      assume a: "templates c'' k = Some t" "templates c1 k = None"
      show "\<exists>i\<in>set (xs @ [img]). Image.Name i = k \<and>
              template_name_version i = Some (Template.Name t, Version t)"
      proof (cases "templates c' k = Some t")
        case True
        from i3[OF True a(2)] show ?thesis by auto
      next
        case False
        then show ?thesis using new[OF a(1) False] nv by auto
      qed
    next
      fix n
      show "retval' n \<noteq> Some []" using i4[of n] by (simp add: retval'_def)
    next
      fix n
      show "list_all2 (\<lambda>i t. templates c'' (Image.Name i) = Some t)
           (filter (\<lambda>i. template_named i n) (xs @ [img])) (map_index retval' n)"
      proof (cases "n = name")
        case True
        have one: "list_all2 (\<lambda>i t. templates c'' (Image.Name i) = Some t) [img] [tmpl]"
          using here by simp
        have "map_index retval' name = map_index retval name @ [tmpl]"
          by (simp add: retval'_def map_index_def)
        moreover have "filter (\<lambda>i. template_named i name) (xs @ [img]) =
            filter (\<lambda>i. template_named i name) xs @ [img]"
          using named by simp
        ultimately show ?thesis
          using list_all2_appendI[OF old5[of name] one] True by simp
      next
        case False
        have "map_index retval' n = map_index retval n"
          using False by (simp add: retval'_def map_index_def)
        moreover have "filter (\<lambda>i. template_named i n) (xs @ [img]) =
            filter (\<lambda>i. template_named i n) xs"
          using named False by simp
        ultimately show ?thesis using old5[of n] by simp
      qed
    qed
  qed
qed

lemma loop_inv_foldl:
  "loop_inv c1 xs st \<Longrightarrow> loop_inv c1 (xs @ ys) (foldl ListTemplates_step st ys)"
proof (induction ys arbitrary: xs st)
  case Nil
  then show ?case by simp
next
  case (Cons y ys)
  from Cons.IH[OF loop_inv_step[OF Cons.prems, of y]]
  show ?case by simp
qed

lemma loop_inv_start: "loop_inv c1 [] (Map.empty, c1)"
  by (simp add: loop_inv_def map_index_def)

lemma set_insert_less: "set (insert_less lt x xs) = insert x (set xs)"
  by (induction xs) auto

lemma set_sort_Sort: "set (sort_Sort lt xs) = set xs"
  by (induction xs) (auto simp: sort_Sort_def set_insert_less)

lemma sort_Sort_eq_Nil: "sort_Sort lt xs = [] \<longleftrightarrow> xs = []"
  by (metis set_sort_Sort set_empty)

lemma sorted_insert_less:
  "sorted (map version_key xs) \<Longrightarrow>
   sorted (map version_key (insert_less TemplateVersions_Less x xs))"
proof (induction xs)
  case Nil
  then show ?case by simp
next
  case (Cons y ys)
  show ?case
  proof (cases "TemplateVersions_Less y x")
    case True
    then have "version_key y \<le> version_key x" by (simp add: Less_key)
    then show ?thesis using True Cons by (auto simp: set_insert_less)
  next
    case False
    then have "version_key x \<le> version_key y" by (simp add: Less_key)
    then show ?thesis using False Cons.prems by auto
  qed
qed

lemma sorted_sort_Sort: "sorted (map version_key (sort_Sort TemplateVersions_Less xs))"
  by (induction xs) (auto simp: sort_Sort_def sorted_insert_less simp del: insert_less.simps)

lemma sorted_wrt_Less:
  "sorted_wrt (\<lambda>a b. \<not> TemplateVersions_Less b a) ts \<longleftrightarrow> sorted (map version_key ts)"
  by (simp add: sorted_map Less_key not_less)

lemma sorted_last_greatest:
  "sorted (map version_key ts) \<Longrightarrow> t \<in> set ts \<Longrightarrow> version_key t \<le> version_key (last ts)"
  by (induction ts) (auto split: if_splits)

lemma listImages_templates:
  "listImages c = (r, c1) \<Longrightarrow> templates c1 = templates c"
  by (auto simp: listImages_def object_Call_def bus_Call_def Let_def split: prod.splits sum.splits)

text \<open>
  Claim C8. When the listing of the images succeeds, \<^const>\<open>ListTemplates\<close> returns a
  catalog and no error. Every template in the group of a name comes from a listed image
  whose name splits at \<^verbatim>\<open>-template_\<close> into that name and a version that parses as an
  integer (it is the template cached under the image's name, named and versioned as the
  image's name says when none was cached before). Conversely the group of a name is
  made, by sorting, of exactly one template for each listed image whose name stands for
  that name, the template cached under the image's name, and a name for which no listed
  image stands has no group: so the images whose name does not split or whose version
  does not parse are passed over and those after them are still read (the loop gives the
  same result on the listing without them). Every group is non-empty and sorted, with no template above its
  last. When the cache was consistent before (as the empty cache of a new manager is),
  it is consistent after, the catalog is grouped by name and sorted, and the last template
  of every group has the highest version of the group.
\<close>

theorem ListTemplates_catalog:
  "listImages c = (Inr images, c1) \<longrightarrow>
     (\<exists>cat c2. ListTemplates c d = (Inr cat, c2) \<and> Default cat = d \<and>
        (\<forall>name ts t. Templates cat name = Some ts \<and> t \<in> set ts \<longrightarrow>
           (\<exists>img\<in>set images. \<exists>ver.
              template_name_version img = Some (name, ver) \<and>
              templates c2 (Image.Name img) = Some t \<and>
              (templates c (Image.Name img) = None \<longrightarrow>
                 Template.Name t = name \<and> Version t = ver))) \<and>
        foldl ListTemplates_step (Map.empty, c1) images =
          foldl ListTemplates_step (Map.empty, c1)
            (filter (\<lambda>img. template_name_version img \<noteq> None) images) \<and>
        (\<forall>name. \<exists>tmpls.
           list_all2 (\<lambda>img t. templates c2 (Image.Name img) = Some t)
             (filter (\<lambda>img. template_named img name) images) tmpls \<and>
           Templates cat name =
             (if tmpls = [] then None else Some (sort_Sort TemplateVersions_Less tmpls))) \<and>
        (\<forall>name ts. Templates cat name = Some ts \<longrightarrow>
           ts \<noteq> [] \<and> sorted_wrt (\<lambda>a b. \<not> TemplateVersions_Less b a) ts \<and>
           (\<forall>t\<in>set ts. \<not> TemplateVersions_Less (last ts) t)) \<and>
        (cache_consistent c \<longrightarrow>
           catalog_sorted cat \<and> cache_consistent c2 \<and>
           (\<forall>name ts. Templates cat name = Some ts \<longrightarrow>
              (\<forall>t\<in>set ts. Version t \<le> Version (last ts)))))"
proof
  assume li: "listImages c = (Inr images, c1)"
  obtain retval c2 where fl: "foldl ListTemplates_step (Map.empty, c1) images = (retval, c2)"
    by (metis surj_pair)
  define cat where "cat = \<lparr>Default = d,
      Templates = (\<lambda>k. map_option (sort_Sort TemplateVersions_Less) (retval k))\<rparr>"
  have res: "ListTemplates c d = (Inr cat, c2)"
    using li fl by (simp add: ListTemplates_def cat_def)
  have inv: "loop_inv c1 images (retval, c2)"
    using loop_inv_foldl[OF loop_inv_start, of c1 images] fl by simp
  have grp: "\<exists>ts0. retval name = Some ts0 \<and> ts = sort_Sort TemplateVersions_Less ts0"
    if "Templates cat name = Some ts" for name ts
    using that by (auto simp: cat_def)
  have only: "\<exists>img\<in>set images. \<exists>ver.
              template_name_version img = Some (name, ver) \<and>
              templates c2 (Image.Name img) = Some t \<and>
              (templates c (Image.Name img) = None \<longrightarrow>
                 Template.Name t = name \<and> Version t = ver)"
    if g: "Templates cat name = Some ts" and t: "t \<in> set ts" for name ts t
  proof -
    obtain ts0 where ts0: "retval name = Some ts0" "t \<in> set ts0"
      using grp[OF g] t by (auto simp: set_sort_Sort)
    from loop_invD(1)[OF inv this]
    obtain img ver where img: "img \<in> set images"
      "template_name_version img = Some (name, ver)" "templates c2 (Image.Name img) = Some t"
      by blast
    have "Template.Name t = name \<and> Version t = ver" if "templates c (Image.Name img) = None"
    proof -
      have "templates c1 (Image.Name img) = None"
        using that listImages_templates[OF li] by simp
      from loop_invD(3)[OF inv img(3) this]
      obtain img' where "Image.Name img' = Image.Name img"
        "template_name_version img' = Some (Template.Name t, Version t)"
        by blast
      then show ?thesis
        using img(2) template_name_version_cong[of img' img] by simp
    qed
    then show ?thesis using img by (intro bexI[of _ img] exI[of _ ver]) auto
  qed
  have every: "\<exists>tmpls.
           list_all2 (\<lambda>img t. templates c2 (Image.Name img) = Some t)
             (filter (\<lambda>img. template_named img name) images) tmpls \<and>
           Templates cat name =
             (if tmpls = [] then None else Some (sort_Sort TemplateVersions_Less tmpls))"
    for name
  proof (intro exI[of _ "map_index retval name"] conjI)
    show "list_all2 (\<lambda>img t. templates c2 (Image.Name img) = Some t)
             (filter (\<lambda>img. template_named img name) images) (map_index retval name)"
      by (rule loop_invD(5)[OF inv])
    show "Templates cat name =
        (if map_index retval name = [] then None
         else Some (sort_Sort TemplateVersions_Less (map_index retval name)))"
      using loop_invD(4)[OF inv, of name]
      by (auto simp: cat_def map_index_def split: option.splits)
  qed
  have sorted_groups: "ts \<noteq> [] \<and> sorted_wrt (\<lambda>a b. \<not> TemplateVersions_Less b a) ts \<and>
           (\<forall>t\<in>set ts. \<not> TemplateVersions_Less (last ts) t)"
    if g: "Templates cat name = Some ts" for name ts
  proof -
    obtain ts0 where ts0: "retval name = Some ts0" "ts = sort_Sort TemplateVersions_Less ts0"
      using grp[OF g] by blast
    have "ts0 \<noteq> []" using loop_invD(4)[OF inv, of name] ts0(1) by auto
    then have ne: "ts \<noteq> []" using ts0(2) by (simp add: sort_Sort_eq_Nil)
    have srt: "sorted (map version_key ts)" using ts0(2) by (simp add: sorted_sort_Sort)
    have "\<not> TemplateVersions_Less (last ts) t" if "t \<in> set ts" for t
      using sorted_last_greatest[OF srt that] by (simp add: Less_key not_less)
    then show ?thesis using ne srt by (simp add: sorted_wrt_Less)
  qed
  have consistent: "catalog_sorted cat \<and> cache_consistent c2 \<and>
           (\<forall>name ts. Templates cat name = Some ts \<longrightarrow>
              (\<forall>t\<in>set ts. Version t \<le> Version (last ts)))"
    if cc: "cache_consistent c"
  proof -
    have kept: "templates c2 k = templates c1 k" if "templates c1 k \<noteq> None" for k
      using loop_invD(2)[OF inv that] .
    have gained: "\<exists>img\<in>set images. Image.Name img = k \<and>
          template_name_version img = Some (Template.Name t, Version t)"
      if "templates c2 k = Some t" "templates c1 k = None" for k t
      using loop_invD(3)[OF inv that] .
    have held: "template_name_version \<lparr>Image.Name = k, Path = []\<rparr> =
          Some (Template.Name t, Version t)"
      if in_c2: "templates c2 k = Some t" for k t
    proof (cases "templates c1 k")
      case None
      then obtain img where "Image.Name img = k"
        "template_name_version img = Some (Template.Name t, Version t)"
        using gained in_c2 by blast
      then show ?thesis
        using template_name_version_cong[of "\<lparr>Image.Name = k, Path = []\<rparr>" img] by simp
    next
      case (Some t0)
      then have "templates c k = Some t"
        using kept[of k] in_c2 listImages_templates[OF li] by simp
      then show ?thesis using cc by (simp add: cache_consistent_def)
    qed
    have c2: "cache_consistent c2"
      using held by (simp add: cache_consistent_def)
    have named: "Template.Name t = name" if g: "Templates cat name = Some ts" and t: "t \<in> set ts"
      for name ts t
    proof -
      obtain img ver where img: "template_name_version img = Some (name, ver)"
        "templates c2 (Image.Name img) = Some t"
        using only[OF g t] by blast
      have "template_name_version img = Some (Template.Name t, Version t)"
        using held[OF img(2)] template_name_version_cong[of "\<lparr>Image.Name = Image.Name img, Path = []\<rparr>" img]
        by simp
      then show ?thesis using img(1) by simp
    qed
    have cs: "catalog_sorted cat"
      unfolding catalog_sorted_def using sorted_groups named by blast
    have top: "Version t \<le> Version (last ts)" if g: "Templates cat name = Some ts" and t: "t \<in> set ts"
      for name ts t
    proof -
      have "last ts \<in> set ts" using sorted_groups[OF g] by simp
      then have "Template.Name (last ts) = Template.Name t"
        using named[OF g] t by simp
      moreover have "\<not> TemplateVersions_Less (last ts) t"
        using sorted_groups[OF g] t by blast
      ultimately show ?thesis by (simp add: TemplateVersions_Less_def)
    qed
    show ?thesis using cs c2 top by blast
  qed
  have "Default cat = d" by (simp add: cat_def)
  then show "\<exists>cat c2. ListTemplates c d = (Inr cat, c2) \<and> Default cat = d \<and>
        (\<forall>name ts t. Templates cat name = Some ts \<and> t \<in> set ts \<longrightarrow>
           (\<exists>img\<in>set images. \<exists>ver.
              template_name_version img = Some (name, ver) \<and>
              templates c2 (Image.Name img) = Some t \<and>
              (templates c (Image.Name img) = None \<longrightarrow>
                 Template.Name t = name \<and> Version t = ver))) \<and>
        foldl ListTemplates_step (Map.empty, c1) images =
          foldl ListTemplates_step (Map.empty, c1)
            (filter (\<lambda>img. template_name_version img \<noteq> None) images) \<and>
        (\<forall>name. \<exists>tmpls.
           list_all2 (\<lambda>img t. templates c2 (Image.Name img) = Some t)
             (filter (\<lambda>img. template_named img name) images) tmpls \<and>
           Templates cat name =
             (if tmpls = [] then None else Some (sort_Sort TemplateVersions_Less tmpls))) \<and>
        (\<forall>name ts. Templates cat name = Some ts \<longrightarrow>
           ts \<noteq> [] \<and> sorted_wrt (\<lambda>a b. \<not> TemplateVersions_Less b a) ts \<and>
           (\<forall>t\<in>set ts. \<not> TemplateVersions_Less (last ts) t)) \<and>
        (cache_consistent c \<longrightarrow>
           catalog_sorted cat \<and> cache_consistent c2 \<and>
           (\<forall>name ts. Templates cat name = Some ts \<longrightarrow>
              (\<forall>t\<in>set ts. Version t \<le> Version (last ts))))"
    using res only every sorted_groups consistent
      ListTemplates_skips[of "(Map.empty, c1)" images]
    by (intro exI[of _ cat] exI[of _ c2] conjI) blast+
qed

theorem ListTemplates_catalog_witness:
  "fst (listImages (manager_on listing_bus)) = Inr listed_images \<and>
   cache_consistent (manager_on listing_bus) \<and>
   map template_name_version listed_images =
     [Some (''base'', 2), None, None, Some (''base'', 1)] \<and>
   map Image.Name (filter (\<lambda>img. template_named img ''base'') listed_images) =
     [''base-template_2'', ''base-template_1''] \<and>
   (case fst (ListTemplates (manager_on listing_bus) ''base'') of
      Inl e \<Rightarrow> False
    | Inr cat \<Rightarrow>
        Default cat = ''base'' \<and> Templates cat ''base'' = Some [base_v1, base_v2] \<and>
        Templates cat ''web'' = None \<and> catalog_sorted cat \<and>
        sorted_wrt (\<lambda>a b. \<not> TemplateVersions_Less b a) [base_v1, base_v2])"
proof -
  have w1: "fst (listImages (manager_on listing_bus)) = Inr listed_images"
    by code_simp
  have w2: "map template_name_version listed_images =
      [Some (''base'', 2), None, None, Some (''base'', 1)]"
    by code_simp
  have w3: "(case fst (ListTemplates (manager_on listing_bus) ''base'') of
      Inl e \<Rightarrow> False
    | Inr cat \<Rightarrow> Default cat = ''base'' \<and> Templates cat ''base'' = Some [base_v1, base_v2] \<and>
        Templates cat ''web'' = None)"
    by code_simp
  have w4: "map Image.Name (filter (\<lambda>img. template_named img ''base'') listed_images) =
      [''base-template_2'', ''base-template_1'']"
    by code_simp
  have cc: "cache_consistent (manager_on listing_bus)"
    by (simp add: cache_consistent_def)
  obtain c1 where li: "listImages (manager_on listing_bus) = (Inr listed_images, c1)"
    using w1 by (metis fst_conv surj_pair)
  from ListTemplates_catalog[where c = "manager_on listing_bus" and images = listed_images
      and ?c1.0 = c1 and d = "''base''", rule_format, OF li]
  obtain cat c2 where res: "ListTemplates (manager_on listing_bus) ''base'' = (Inr cat, c2)"
    and srt: "\<forall>name ts. Templates cat name = Some ts \<longrightarrow>
           ts \<noteq> [] \<and> sorted_wrt (\<lambda>a b. \<not> TemplateVersions_Less b a) ts \<and>
           (\<forall>t\<in>set ts. \<not> TemplateVersions_Less (last ts) t)"
    and cs: "cache_consistent (manager_on listing_bus) \<longrightarrow> catalog_sorted cat"
    by blast
  have grp: "Templates cat ''base'' = Some [base_v1, base_v2]"
    using w3 res by simp
  have "sorted_wrt (\<lambda>a b. \<not> TemplateVersions_Less b a) [base_v1, base_v2]"
    using srt grp by blast
  then show ?thesis using w1 w2 w3 w4 res cc cs by simp
qed

end
